theory Spec2Isabelle
  imports Main
begin

section \<open>Conventions\<close>

text \<open>
  The development embeds the event-sourced scheduling core: the event log
  (\<^verbatim>\<open>src/core/event-log.ts\<close>), the cron engine (\<^verbatim>\<open>task/cron/engine.ts\<close>), the
  cron listener (\<^verbatim>\<open>task/cron/listener.ts\<close>) and the heartbeat
  (\<^verbatim>\<open>task/heartbeat/heartbeat.ts\<close>).

  JavaScript numbers that hold counters, sequence numbers and epoch milliseconds are
  modelled as \<open>int\<close> (no rounding at \<open>2^53\<close>). Strings are \<open>string\<close>, one \<open>char\<close> per
  code unit below 256. A rejected promise or a \<^verbatim>\<open>throw\<close> is the \<open>Inl\<close> branch of a sum.
  What the code takes from its environment (the clock, whether a disk write succeeds,
  what the conversation engine answers) is an explicit argument.
\<close>

datatype error =
    IoError                 \<comment> \<open>a file-system call rejected\<close>
  | NotFound string         \<comment> \<open>\<^verbatim>\<open>new Error(msg)\<close> of the scheduler, with its message\<close>

section \<open>Event log\<close>

text \<open>
  The payload of an entry is opaque to the log. The constructors are the payloads this
  core writes; \<open>Opaque\<close> stands for any other JSON value.
\<close>

datatype payload =
    CronFire string string string           \<comment> \<open>jobId, jobName, payload\<close>
  | CronDone string string string int       \<comment> \<open>jobId, jobName, reply, durationMs\<close>
  | CronError string string string int      \<comment> \<open>jobId, jobName, error, durationMs\<close>
  | HeartbeatSkip string "string option"    \<comment> \<open>reason, parsedReason\<close>
  | HeartbeatDone string string int bool    \<comment> \<open>reply, reason, durationMs, delivered\<close>
  | HeartbeatError string int               \<comment> \<open>error, durationMs\<close>
  | Opaque string

record EventLogEntry =
  seq :: int
  ts :: int
  type :: string
  payload :: payload

text \<open>
  The log file after \<^verbatim>\<open>raw.split('\n')\<close>: a line is blank (\<^verbatim>\<open>!line.trim()\<close>), or
  \<^verbatim>\<open>JSON.parse\<close> throws on it, or it parses to an entry. The file itself is absent
  (\<open>None\<close>, the ENOENT case) or holds a list of lines. A line that \<^verbatim>\<open>JSON.parse\<close> accepts
  without its being an entry object (\<^verbatim>\<open>{}\<close>, \<^verbatim>\<open>42\<close>, \<^verbatim>\<open>null\<close>) has no constructor here:
  \<^verbatim>\<open>append\<close> writes entry objects only, and a file with such a line is outside this
  model (the code would keep the value and read its \<^verbatim>\<open>seq\<close>: undefined, or a TypeError).
\<close>

datatype line = Blank | Malformed | Json EventLogEntry

type_synonym disk = "line list option"

record EventLog =
  log_file :: disk
  seq_counter :: int
  buffer :: "EventLogEntry list"
  bufferSize :: int

definition DEFAULT_BUFFER_SIZE :: int where
  "DEFAULT_BUFFER_SIZE = 500"

text \<open>\<^verbatim>\<open>Array.prototype.slice(start)\<close>: a negative start counts from the end.\<close>

definition js_slice :: "'a list \<Rightarrow> int \<Rightarrow> 'a list" where
  "js_slice xs start =
     (let n = int (length xs);
          k = (if start < 0 then max (n + start) 0 else min start n)
      in drop (nat k) xs)"

text \<open>The parsing loop shared by \<^verbatim>\<open>recoverState\<close>: keep what parses, skip the rest.\<close>

fun parse_lines :: "line list \<Rightarrow> EventLogEntry list" where
  "parse_lines [] = []"
| "parse_lines (Blank # ls) = parse_lines ls"
| "parse_lines (Malformed # ls) = parse_lines ls"
| "parse_lines (Json e # ls) = e # parse_lines ls"

definition blank_raw :: "line list \<Rightarrow> bool" where
  \<comment> \<open>\<^verbatim>\<open>!raw.trim()\<close>: nothing but blank lines\<close>
  "blank_raw ls = list_all (\<lambda>l. l = Blank) ls"

text \<open>
  \<^verbatim>\<open>recoverState(logPath, buffer, bufferSize)\<close> returns the restored counter and pushes
  the tail onto the (empty) buffer it is given; the model returns both. \<open>read_ok\<close> is
  false when \<^verbatim>\<open>readFile\<close> rejects with anything but ENOENT.
\<close>

definition recoverState :: "disk \<Rightarrow> bool \<Rightarrow> int \<Rightarrow> error + (int \<times> EventLogEntry list)" where
  "recoverState d read_ok bsize =
     (if \<not> read_ok then Inl IoError
      else case d of
        None \<Rightarrow> Inr (0, [])
      | Some ls \<Rightarrow>
          if blank_raw ls then Inr (0, [])
          else let entries = parse_lines ls in
            if length entries = 0 then Inr (0, [])
            else Inr (seq (last entries), js_slice entries (- bsize)))"

definition createEventLog :: "disk \<Rightarrow> bool \<Rightarrow> int option \<Rightarrow> error + EventLog" where
  "createEventLog d read_ok bsize_opt =
     (let bsize = (case bsize_opt of None \<Rightarrow> DEFAULT_BUFFER_SIZE | Some b \<Rightarrow> b) in
      case recoverState d read_ok bsize of
        Inl e \<Rightarrow> Inl e
      | Inr (s, buf) \<Rightarrow>
          Inr \<lparr>log_file = d, seq_counter = s, buffer = buf, bufferSize = bsize\<rparr>)"

definition appendFile :: "disk \<Rightarrow> line \<Rightarrow> disk" where
  "appendFile d l = (case d of None \<Rightarrow> Some [l] | Some ls \<Rightarrow> Some (ls @ [l]))"

text \<open>
  \<^verbatim>\<open>append(type, payload)\<close>. The counter is incremented before the write, so a rejected
  write (\<open>write_ok = False\<close>) still consumes a sequence number. Subscribers run after
  the buffer update with their exceptions swallowed; they do not appear here.
\<close>

definition append ::
  "EventLog \<Rightarrow> bool \<Rightarrow> int \<Rightarrow> string \<Rightarrow> payload \<Rightarrow> (error + EventLogEntry) \<times> EventLog" where
  "append lg write_ok now ty p =
     (let lg1 = lg\<lparr>seq_counter := seq_counter lg + 1\<rparr>;
          entry = \<lparr>seq = seq_counter lg1, ts = now, type = ty, payload = p\<rparr>
      in if \<not> write_ok then (Inl IoError, lg1)
         else
           let buf = buffer lg1 @ [entry];
               buf' = (if int (length buf) > bufferSize lg1
                       then js_slice buf (int (length buf) - bufferSize lg1) else buf)
           in (Inr entry, lg1\<lparr>log_file := appendFile (log_file lg1) (Json entry), buffer := buf'\<rparr>))"

definition lastSeq :: "EventLog \<Rightarrow> int" where
  "lastSeq lg = seq_counter lg"

record read_opts =
  afterSeq :: "int option"
  limit :: "int option"
  filterType :: "string option"

definition no_opts :: read_opts where
  "no_opts = \<lparr>afterSeq = None, limit = None, filterType = None\<rparr>"

text \<open>
  The filtering loop of \<^verbatim>\<open>read\<close> and \<^verbatim>\<open>recent\<close>: \<open>results\<close> is the accumulator, the
  \<^verbatim>\<open>break\<close> is taken after a push that reaches the limit. An empty type string is
  falsy and filters nothing.
\<close>

fun collect :: "int \<Rightarrow> int option \<Rightarrow> string option \<Rightarrow> EventLogEntry list \<Rightarrow> EventLogEntry list
                 \<Rightarrow> EventLogEntry list" where
  "collect after lim ft results [] = results"
| "collect after lim ft results (e # es) =
     (if seq e \<le> after then collect after lim ft results es
      else if (case ft of None \<Rightarrow> False | Some t \<Rightarrow> t \<noteq> [] \<and> type e \<noteq> t)
        then collect after lim ft results es
      else let results' = results @ [e] in
        if (case lim of None \<Rightarrow> False | Some l \<Rightarrow> int (length results') \<ge> l) then results'
        else collect after lim ft results' es)"

definition read_log :: "EventLog \<Rightarrow> bool \<Rightarrow> read_opts \<Rightarrow> error + EventLogEntry list" where
  "read_log lg read_ok opts =
     (if \<not> read_ok then Inl IoError
      else case log_file lg of
        None \<Rightarrow> Inr []
      | Some ls \<Rightarrow>
          Inr (collect (case afterSeq opts of None \<Rightarrow> 0 | Some a \<Rightarrow> a) (limit opts)
                 (filterType opts) [] (parse_lines ls)))"

definition recent :: "EventLog \<Rightarrow> read_opts \<Rightarrow> EventLogEntry list" where
  "recent lg opts =
     collect (case afterSeq opts of None \<Rightarrow> 0 | Some a \<Rightarrow> a) (limit opts)
       (filterType opts) [] (buffer lg)"

definition close_log :: "EventLog \<Rightarrow> EventLog" where
  "close_log lg = lg\<lparr>buffer := []\<rparr>"

text \<open>
  A caller that awaits one append after another: the events carry the clock reading,
  the type and the payload; the first rejected write ends the run with its error.
\<close>

fun append_all ::
  "EventLog \<Rightarrow> (bool \<times> int \<times> string \<times> payload) list \<Rightarrow> (error + EventLogEntry list) \<times> EventLog" where
  "append_all lg [] = (Inr [], lg)"
| "append_all lg ((ok, now, ty, p) # evs) =
     (case append lg ok now ty p of
        (Inl e, lg') \<Rightarrow> (Inl e, lg')
      | (Inr entry, lg') \<Rightarrow>
          (case append_all lg' evs of
             (Inl e, lg'') \<Rightarrow> (Inl e, lg'')
           | (Inr entries, lg'') \<Rightarrow> (Inr (entry # entries), lg'')))"

text \<open>The lines of the file, none when it is absent.\<close>

definition disk_lines :: "disk \<Rightarrow> line list" where
  "disk_lines d = (case d of None \<Rightarrow> [] | Some ls \<Rightarrow> ls)"

section \<open>Strings as the code reads them\<close>

text \<open>
  \<^verbatim>\<open>\s\<close> and \<^verbatim>\<open>trim()\<close> use the same set: the white space and line terminators of
  ECMAScript, here the ones below code 256. \<^verbatim>\<open>\d\<close> is an ASCII digit.
\<close>

definition is_space :: "char \<Rightarrow> bool" where
  "is_space c = (c = CHR '' '' \<or> c = CHR 0x09 \<or> c = CHR 0x0A \<or> c = CHR 0x0B
               \<or> c = CHR 0x0C \<or> c = CHR 0x0D \<or> c = CHR 0xA0)"

definition is_line_terminator :: "char \<Rightarrow> bool" where
  "is_line_terminator c = (c = CHR 0x0A \<or> c = CHR 0x0D)"

definition digit_val :: "char \<Rightarrow> nat option" where
  "digit_val c = map_of (zip ''0123456789'' [0, 1, 2, 3, 4, 5, 6, 7, 8, 9]) c"

definition is_digit :: "char \<Rightarrow> bool" where
  "is_digit c = (digit_val c \<noteq> None)"

definition trim :: "string \<Rightarrow> string" where
  "trim s = rev (dropWhile is_space (rev (dropWhile is_space s)))"

text \<open>\<^verbatim>\<open>Number(ds)\<close> on a string of decimal digits.\<close>

definition nat_of_digits :: "string \<Rightarrow> nat" where
  "nat_of_digits ds = foldl (\<lambda>a c. 10 * a + (case digit_val c of None \<Rightarrow> 0 | Some d \<Rightarrow> d)) 0 ds"

text \<open>\<^verbatim>\<open>s.split(c)\<close> for a one-character separator: always at least one piece.\<close>

fun split_on :: "char \<Rightarrow> string \<Rightarrow> string list" where
  "split_on sep [] = [[]]"
| "split_on sep (c # cs) =
     (if c = sep then [] # split_on sep cs
      else case split_on sep cs of p # ps \<Rightarrow> (c # p) # ps | [] \<Rightarrow> [[c]])"

text \<open>
  \<^verbatim>\<open>s.split(/\s+/)\<close>: pieces between maximal runs of white space. \<open>gap\<close> is true
  inside such a run, \<open>cur\<close> is the piece being read, reversed.
\<close>

fun split_ws_from :: "bool \<Rightarrow> string \<Rightarrow> string \<Rightarrow> string list" where
  "split_ws_from gap cur [] = [rev cur]"
| "split_ws_from gap cur (c # cs) =
     (if is_space c then (if gap then split_ws_from True [] cs
                          else rev cur # split_ws_from True [] cs)
      else split_ws_from False (c # cur) cs)"

definition split_ws :: "string \<Rightarrow> string list" where
  "split_ws s = split_ws_from False [] s"

section \<open>Cron engine\<close>

datatype CronSchedule = At string | Every string | Cron string

datatype run_status = Ok | Error

record CronJobState =
  nextRunAtMs :: "int option"
  lastRunAtMs :: "int option"
  lastStatus :: "run_status option"
  consecutiveErrors :: int

record CronJob =
  job_id :: string
  name :: string
  enabled :: bool
  schedule :: CronSchedule
  job_payload :: string
  state :: CronJobState
  createdAt :: int

record CronJobCreate =
  c_name :: string
  c_schedule :: CronSchedule
  c_payload :: string
  c_enabled :: "bool option"

record CronJobPatch =
  p_name :: "string option"
  p_schedule :: "CronSchedule option"
  p_payload :: "string option"
  p_enabled :: "bool option"

text \<open>
  What the engine takes from the JavaScript host: \<^verbatim>\<open>new Date(s).getTime()\<close> (\<open>None\<close>
  for NaN), \<^verbatim>\<open>Number(s)\<close> on a string that is not a plain run of digits, and the local
  calendar fields of an instant (\<^verbatim>\<open>getMonth\<close>, \<^verbatim>\<open>getDate\<close>, \<^verbatim>\<open>getDay\<close>, \<^verbatim>\<open>getHours\<close>,
  \<^verbatim>\<open>getMinutes\<close>).
\<close>

record calendar =
  getMonth :: int
  getDate :: int
  getDay :: int
  getHours :: int
  getMinutes :: int

record host =
  parseDate :: "string \<Rightarrow> int option"
  numberOther :: "string \<Rightarrow> int option"
  localTime :: "int \<Rightarrow> calendar"

subsection \<open>Schedule helpers\<close>

text \<open>
  \<^verbatim>\<open>/^(?:(\d+)h)?(?:(\d+)m)?(?:(\d+)s)?$/\<close>: each optional group is a maximal run of
  digits followed by its unit letter; \<open>take_unit\<close> reads one group or leaves the input.
\<close>

definition take_unit :: "char \<Rightarrow> string \<Rightarrow> nat option \<times> string" where
  "take_unit u s =
     (let ds = takeWhile is_digit s; r = dropWhile is_digit s
      in if ds \<noteq> [] \<and> r \<noteq> [] \<and> hd r = u then (Some (nat_of_digits ds), tl r) else (None, s))"

definition parseDuration :: "string \<Rightarrow> int option" where
  "parseDuration s =
     (let (h_opt, r1) = take_unit CHR ''h'' (trim s);
          (m_opt, r2) = take_unit CHR ''m'' r1;
          (s_opt, r3) = take_unit CHR ''s'' r2
      in if r3 \<noteq> [] then None
         else let h = (case h_opt of None \<Rightarrow> 0 | Some n \<Rightarrow> n);
                  mi = (case m_opt of None \<Rightarrow> 0 | Some n \<Rightarrow> n);
                  sec = (case s_opt of None \<Rightarrow> 0 | Some n \<Rightarrow> n)
              in if h = 0 \<and> mi = 0 \<and> sec = 0 then None
                 else Some (int ((h * 3600 + mi * 60 + sec) * 1000)))"

text \<open>\<^verbatim>\<open>/^\d+$/\<close> and \<^verbatim>\<open>/^(\d+)-(\d+)/\<close> with the rest of the input.\<close>

definition all_digits :: "string \<Rightarrow> nat option" where
  "all_digits s = (if s \<noteq> [] \<and> list_all is_digit s then Some (nat_of_digits s) else None)"

definition range_prefix :: "string \<Rightarrow> (nat \<times> nat \<times> string) option" where
  "range_prefix s =
     (let a = takeWhile is_digit s; r = dropWhile is_digit s
      in if a = [] \<or> r = [] \<or> hd r \<noteq> CHR ''-'' then None
         else let b = takeWhile is_digit (tl r); r' = dropWhile is_digit (tl r)
              in if b = [] then None else Some (nat_of_digits a, nat_of_digits b, r'))"

text \<open>\<^verbatim>\<open>for (let i = start; i <= end; i += step) result.push(i)\<close>, for a positive step.\<close>

function step_range :: "nat \<Rightarrow> nat \<Rightarrow> nat \<Rightarrow> nat list" where
  "step_range i e st = (if st = 0 \<or> e < i then [] else i # step_range (i + st) e st)"
  by pat_completeness auto
termination
  by (relation "measure (\<lambda>(i, e, st). Suc e - i)") auto

declare step_range.simps [simp del]

datatype part_result = Bad | Values "int list"

text \<open>
  One comma-separated part of a cron field, in the order of the source: the step form
  \<^verbatim>\<open>/^(\*|\d+-\d+)\/(\d+)$/\<close>, the range form \<^verbatim>\<open>/^(\d+)-(\d+)$/\<close>, the star, and at last
  \<^verbatim>\<open>Number(part)\<close>.
\<close>

definition js_Number :: "host \<Rightarrow> string \<Rightarrow> int option" where
  "js_Number h s = (case all_digits s of Some n \<Rightarrow> Some (int n) | None \<Rightarrow> numberOther h s)"

definition step_match :: "string \<Rightarrow> (nat \<times> nat \<times> nat) option" where
  \<comment> \<open>start, end and step of a part in step form\<close>
  "step_match part =
     (case part of
        c # d # rest \<Rightarrow>
          if c = CHR ''*'' \<and> d = CHR ''/'' then
            (case all_digits rest of None \<Rightarrow> None | Some st \<Rightarrow> Some (0, 59, st))
          else
            (case range_prefix part of
               Some (a, b, sl # ds) \<Rightarrow>
                 if sl = CHR ''/'' then
                   (case all_digits ds of None \<Rightarrow> None | Some st \<Rightarrow> Some (a, b, st))
                 else None
             | _ \<Rightarrow> None)
      | _ \<Rightarrow> None)"

definition parse_part :: "host \<Rightarrow> string \<Rightarrow> part_result" where
  "parse_part h part =
     (case step_match part of
        Some (a, b, st) \<Rightarrow> if st = 0 then Bad else Values (map int (step_range a b st))
      | None \<Rightarrow>
         (case range_prefix part of
            Some (a, b, []) \<Rightarrow> Values (map int (step_range a b 1))
          | _ \<Rightarrow>
             if part = ''*'' then Values (map int (step_range 0 59 1))
             else (case js_Number h part of None \<Rightarrow> Bad | Some n \<Rightarrow> Values [n])))"

fun parse_parts :: "host \<Rightarrow> int list \<Rightarrow> string list \<Rightarrow> int list option" where
  "parse_parts h result [] = (if length result > 0 then Some result else None)"
| "parse_parts h result (part # parts) =
     (case parse_part h part of
        Bad \<Rightarrow> None
      | Values vs \<Rightarrow> parse_parts h (result @ vs) parts)"

definition parseFieldValues :: "host \<Rightarrow> string \<Rightarrow> int list option" where
  "parseFieldValues h field = parse_parts h [] (split_on CHR '','' field)"

definition minute_ms :: int where
  "minute_ms = 60000"

definition cron_matches :: "host \<Rightarrow> int list list \<Rightarrow> int \<Rightarrow> bool" where
  \<comment> \<open>the fields are minutes, hours, days of month, months, days of week\<close>
  "cron_matches h fs cursor =
     (let c = localTime h cursor
      in getMonth c + 1 \<in> set (fs ! 3) \<and> getDate c \<in> set (fs ! 2) \<and> getDay c \<in> set (fs ! 4)
         \<and> getHours c \<in> set (fs ! 1) \<and> getMinutes c \<in> set (fs ! 0))"

text \<open>
  The scanning loop \<^verbatim>\<open>while (cursor.getTime() < limit)\<close>. Local time is taken at a fixed
  whole-minute offset from UTC, so that \<^verbatim>\<open>setMinutes(getMinutes() + 1)\<close> adds 60000 ms
  and \<^verbatim>\<open>setSeconds(0, 0)\<close> rounds down to the minute.
\<close>

function cron_scan :: "host \<Rightarrow> int list list \<Rightarrow> int \<Rightarrow> int \<Rightarrow> int option" where
  "cron_scan h fs lim cursor =
     (if cursor < lim then
        (if cron_matches h fs cursor then Some cursor
         else cron_scan h fs lim (cursor + minute_ms))
      else None)"
  by pat_completeness auto
termination
  by (relation "measure (\<lambda>(h, fs, lim, cursor). nat (lim - cursor))") (auto simp: minute_ms_def)

declare cron_scan.simps [simp del]

definition nextCronFire :: "host \<Rightarrow> string \<Rightarrow> int \<Rightarrow> int option" where
  "nextCronFire h expr afterMs =
     (let parts = split_ws (trim expr) in
      if length parts \<noteq> 5 then None
      else let fields = map (parseFieldValues h) parts in
        if list_ex (\<lambda>f. f = None) fields then None
        else let start = (afterMs - afterMs mod minute_ms) + minute_ms;
                 lim = afterMs + 366 * 24 * 60 * 60 * 1000
             in cron_scan h (map the fields) lim start)"

definition computeNextRun :: "host \<Rightarrow> CronSchedule \<Rightarrow> int \<Rightarrow> int option" where
  "computeNextRun h sched afterMs =
     (case sched of
        At at \<Rightarrow> (case parseDate h at of None \<Rightarrow> None
                  | Some t \<Rightarrow> if t > afterMs then Some t else None)
      | Every every \<Rightarrow> (case parseDuration every of None \<Rightarrow> None
                        | Some ms \<Rightarrow> Some (afterMs + ms))
      | Cron cron \<Rightarrow> nextCronFire h cron afterMs)"

subsection \<open>Error backoff\<close>

definition ERROR_BACKOFF_MS :: "int list" where
  "ERROR_BACKOFF_MS = [30000, 60000, 300000, 900000, 3600000]"

definition errorBackoffMs :: "int \<Rightarrow> int" where
  "errorBackoffMs n =
     (let idx = min (n - 1) (int (length ERROR_BACKOFF_MS) - 1)
      in ERROR_BACKOFF_MS ! nat (max 0 idx))"

subsection \<open>Engine state and operations\<close>

text \<open>
  The closure variables of \<^verbatim>\<open>createCronEngine\<close>: the job array, the pending timer (its
  delay in milliseconds, \<open>None\<close> when no timeout is armed), the stop flag, the job store
  on disk (\<open>None\<close> when the file is absent) and the event log the engine writes to.
  An operation returns its result together with the state it leaves, since a throw does
  not undo the assignments made before it.
\<close>

record CronEngine =
  jobs :: "CronJob list"
  timer :: "int option"
  stopped :: bool
  store :: "CronJob list option"
  eventLog :: EventLog

definition load :: "bool \<Rightarrow> CronEngine \<Rightarrow> (error + unit) \<times> CronEngine" where
  \<comment> \<open>\<open>read_ok\<close> is false when reading or parsing the store throws anything but ENOENT\<close>
  "load read_ok eng =
     (if \<not> read_ok then (Inl IoError, eng)
      else case store eng of
        None \<Rightarrow> (Inr (), eng\<lparr>jobs := []\<rparr>)
      | Some js \<Rightarrow> (Inr (), eng\<lparr>jobs := js\<rparr>))"

definition save :: "bool \<Rightarrow> CronEngine \<Rightarrow> (error + unit) \<times> CronEngine" where
  \<comment> \<open>write to a temporary file, then rename: the store changes only when all of it succeeds\<close>
  "save save_ok eng =
     (if save_ok then (Inr (), eng\<lparr>store := Some (jobs eng)\<rparr>) else (Inl IoError, eng))"

definition clearTimer :: "CronEngine \<Rightarrow> CronEngine" where
  \<comment> \<open>\<^verbatim>\<open>if (timer) { clearTimeout(timer); timer = null }\<close>\<close>
  "clearTimer eng = eng\<lparr>timer := None\<rparr>"

definition armTimer :: "int \<Rightarrow> CronEngine \<Rightarrow> CronEngine" where
  "armTimer now eng =
     (if stopped eng then eng
      else let armed = filter (\<lambda>j. enabled j \<and> nextRunAtMs (state j) \<noteq> None) (jobs eng);
               nextMs = foldl (\<lambda>mn j. let n = the (nextRunAtMs (state j)) in
                                 (case mn of None \<Rightarrow> Some n | Some m \<Rightarrow> Some (min m n)))
                          None armed
           in case nextMs of
                None \<Rightarrow> eng
              | Some nx \<Rightarrow> eng\<lparr>timer := Some (max 0 (min (nx - now) 60000))\<rparr>)"

text \<open>
  \<^verbatim>\<open>fireJob(job, currentMs)\<close> mutates the job and appends to the event log; the model
  returns both. \<open>write_ok\<close> and \<open>ts_now\<close> are what the append meets: whether the disk write
  succeeds, and \<^verbatim>\<open>Date.now()\<close>.
\<close>

definition fireJob :: "host \<Rightarrow> bool \<Rightarrow> int \<Rightarrow> int \<Rightarrow> CronJob \<Rightarrow> EventLog \<Rightarrow> CronJob \<times> EventLog" where
  "fireJob h write_ok ts_now currentMs job lg =
     (let st1 = (state job)\<lparr>lastRunAtMs := Some currentMs\<rparr>;
          (res, lg') = append lg write_ok ts_now ''cron.fire''
                         (CronFire (job_id job) (name job) (job_payload job));
          st2 = (case res of
                   Inr _ \<Rightarrow> st1\<lparr>lastStatus := Some Ok, consecutiveErrors := 0\<rparr>
                 | Inl _ \<Rightarrow> st1\<lparr>lastStatus := Some Error,
                                consecutiveErrors := consecutiveErrors st1 + 1\<rparr>)
      in case schedule job of
           At _ \<Rightarrow> (job\<lparr>enabled := False, state := st2\<lparr>nextRunAtMs := None\<rparr>\<rparr>, lg')
         | _ \<Rightarrow>
             if consecutiveErrors st2 > 0
             then (job\<lparr>state := st2\<lparr>nextRunAtMs :=
                       Some (currentMs + errorBackoffMs (consecutiveErrors st2))\<rparr>\<rparr>, lg')
             else (job\<lparr>state := st2\<lparr>nextRunAtMs :=
                       computeNextRun h (schedule job) currentMs\<rparr>\<rparr>, lg'))"

definition is_due :: "int \<Rightarrow> CronJob \<Rightarrow> bool" where
  "is_due currentMs j =
     (enabled j \<and> (case nextRunAtMs (state j) of None \<Rightarrow> False | Some n \<Rightarrow> n \<le> currentMs))"

text \<open>
  The loop of \<^verbatim>\<open>onTick\<close> over the due jobs, in list order. Which jobs are due is decided
  before the first fire; \<open>write_ok\<close> tells for each job id whether its append succeeds.
\<close>

fun fire_due :: "host \<Rightarrow> (string \<Rightarrow> bool) \<Rightarrow> int \<Rightarrow> int \<Rightarrow> CronJob list \<Rightarrow> EventLog
                  \<Rightarrow> CronJob list \<times> EventLog" where
  "fire_due h write_ok ts_now currentMs [] lg = ([], lg)"
| "fire_due h write_ok ts_now currentMs (j # js) lg =
     (if is_due currentMs j then
        (let (j', lg1) = fireJob h (write_ok (job_id j)) ts_now currentMs j lg;
             (js', lg2) = fire_due h write_ok ts_now currentMs js lg1
         in (j' # js', lg2))
      else
        (let (js', lg2) = fire_due h write_ok ts_now currentMs js lg
         in (j # js', lg2)))"

definition onTick ::
  "host \<Rightarrow> (string \<Rightarrow> bool) \<Rightarrow> bool \<Rightarrow> int \<Rightarrow> int \<Rightarrow> int \<Rightarrow> CronEngine \<Rightarrow> (error + unit) \<times> CronEngine" where
  \<comment> \<open>\<open>currentMs\<close> is the clock at the start of the tick, \<open>now_arm\<close> the clock when re-arming\<close>
  "onTick h write_ok save_ok ts_now currentMs now_arm eng =
     (let eng0 = eng\<lparr>timer := None\<rparr> in
      if stopped eng0 then (Inr (), eng0)
      else let (js', lg') = fire_due h write_ok ts_now currentMs (jobs eng0) (eventLog eng0);
               eng1 = eng0\<lparr>jobs := js', eventLog := lg'\<rparr>
           in case save save_ok eng1 of
                (Inl e, eng2) \<Rightarrow> (Inl e, eng2)
              | (Inr _, eng2) \<Rightarrow> (Inr (), armTimer now_arm eng2))"

definition start_job :: "host \<Rightarrow> int \<Rightarrow> CronJob \<Rightarrow> CronJob" where
  \<comment> \<open>the body of the loop of \<^verbatim>\<open>start()\<close>\<close>
  "start_job h currentMs job =
     (if \<not> enabled job then job
      else if (case nextRunAtMs (state job) of None \<Rightarrow> True | Some n \<Rightarrow> n < currentMs) then
        (let nx = computeNextRun h (schedule job) currentMs;
             job1 = job\<lparr>state := (state job)\<lparr>nextRunAtMs := nx\<rparr>\<rparr>
         in case schedule job of
              At _ \<Rightarrow> if nx = None then job1\<lparr>enabled := False\<rparr> else job1
            | _ \<Rightarrow> job1)
      else job)"

definition start ::
  "host \<Rightarrow> bool \<Rightarrow> bool \<Rightarrow> int \<Rightarrow> int \<Rightarrow> CronEngine \<Rightarrow> (error + unit) \<times> CronEngine" where
  "start h read_ok save_ok currentMs now_arm eng =
     (case load read_ok eng of
        (Inl e, eng0) \<Rightarrow> (Inl e, eng0)
      | (Inr _, eng0) \<Rightarrow>
          (let eng1 = eng0\<lparr>jobs := map (start_job h currentMs) (jobs eng0)\<rparr>
           in case save save_ok eng1 of
                (Inl e, eng2) \<Rightarrow> (Inl e, eng2)
              | (Inr _, eng2) \<Rightarrow> (Inr (), armTimer now_arm eng2)))"

definition stop :: "CronEngine \<Rightarrow> CronEngine" where
  "stop eng = eng\<lparr>stopped := True, timer := None\<rparr>"

text \<open>\<^verbatim>\<open>add(params)\<close>; \<open>new_id\<close> is \<^verbatim>\<open>randomUUID().slice(0, 8)\<close>.\<close>

definition add ::
  "host \<Rightarrow> string \<Rightarrow> bool \<Rightarrow> int \<Rightarrow> int \<Rightarrow> CronJobCreate \<Rightarrow> CronEngine \<Rightarrow> (error + string) \<times> CronEngine" where
  "add h new_id save_ok currentMs now_arm params eng =
     (let job = \<lparr>job_id = new_id, name = c_name params,
                 enabled = (case c_enabled params of None \<Rightarrow> True | Some b \<Rightarrow> b),
                 schedule = c_schedule params, job_payload = c_payload params,
                 state = \<lparr>nextRunAtMs = computeNextRun h (c_schedule params) currentMs,
                          lastRunAtMs = None, lastStatus = None, consecutiveErrors = 0\<rparr>,
                 createdAt = currentMs\<rparr>;
          eng1 = eng\<lparr>jobs := jobs eng @ [job]\<rparr>
      in case save save_ok eng1 of
           (Inl e, eng2) \<Rightarrow> (Inl e, eng2)
         | (Inr _, eng2) \<Rightarrow> (Inr new_id, armTimer now_arm (clearTimer eng2)))"

text \<open>\<^verbatim>\<open>jobs.findIndex((j) => j.id === id)\<close>: the position of the first job with the id.\<close>

fun findIndex :: "string \<Rightarrow> CronJob list \<Rightarrow> nat option" where
  "findIndex i [] = None"
| "findIndex i (j # js) =
     (if job_id j = i then Some 0 else map_option Suc (findIndex i js))"

definition not_found :: "string \<Rightarrow> error" where
  \<comment> \<open>\<^verbatim>\<open>new Error(`cron job not found: ${id}`)\<close>\<close>
  "not_found i = NotFound (''cron job not found: '' @ i)"

definition apply_patch :: "host \<Rightarrow> int \<Rightarrow> CronJobPatch \<Rightarrow> CronJob \<Rightarrow> CronJob" where
  \<comment> \<open>the assignments of \<^verbatim>\<open>update\<close>, in order; \<open>now\<close> is read when the schedule is patched\<close>
  "apply_patch h now patch job =
     (let j1 = (case p_name patch of None \<Rightarrow> job | Some n \<Rightarrow> job\<lparr>name := n\<rparr>);
          j2 = (case p_payload patch of None \<Rightarrow> j1 | Some p \<Rightarrow> j1\<lparr>job_payload := p\<rparr>);
          j3 = (case p_enabled patch of None \<Rightarrow> j2 | Some b \<Rightarrow> j2\<lparr>enabled := b\<rparr>)
      in case p_schedule patch of
           None \<Rightarrow> j3
         | Some s \<Rightarrow> j3\<lparr>schedule := s,
                        state := (state j3)\<lparr>nextRunAtMs := computeNextRun h s now,
                                             consecutiveErrors := 0\<rparr>\<rparr>)"

definition update ::
  "host \<Rightarrow> bool \<Rightarrow> int \<Rightarrow> int \<Rightarrow> string \<Rightarrow> CronJobPatch \<Rightarrow> CronEngine \<Rightarrow> (error + unit) \<times> CronEngine" where
  "update h save_ok now now_arm i patch eng =
     (case findIndex i (jobs eng) of
        None \<Rightarrow> (Inl (not_found i), eng)
      | Some k \<Rightarrow>
          (let eng1 = eng\<lparr>jobs := (jobs eng)[k := apply_patch h now patch (jobs eng ! k)]\<rparr>
           in case save save_ok eng1 of
                (Inl e, eng2) \<Rightarrow> (Inl e, eng2)
              | (Inr _, eng2) \<Rightarrow> (Inr (), armTimer now_arm (clearTimer eng2))))"

definition remove :: "bool \<Rightarrow> string \<Rightarrow> CronEngine \<Rightarrow> (error + unit) \<times> CronEngine" where
  "remove save_ok i eng =
     (case findIndex i (jobs eng) of
        None \<Rightarrow> (Inl (not_found i), eng)
      | Some k \<Rightarrow> save save_ok (eng\<lparr>jobs := take k (jobs eng) @ drop (Suc k) (jobs eng)\<rparr>))"

definition list_jobs :: "CronEngine \<Rightarrow> CronJob list" where
  "list_jobs eng = jobs eng"

definition get :: "string \<Rightarrow> CronEngine \<Rightarrow> CronJob option" where
  "get i eng = map_option (\<lambda>k. jobs eng ! k) (findIndex i (jobs eng))"

definition runNow ::
  "host \<Rightarrow> bool \<Rightarrow> bool \<Rightarrow> int \<Rightarrow> int \<Rightarrow> string \<Rightarrow> CronEngine \<Rightarrow> (error + unit) \<times> CronEngine" where
  "runNow h write_ok save_ok ts_now now i eng =
     (case findIndex i (jobs eng) of
        None \<Rightarrow> (Inl (not_found i), eng)
      | Some k \<Rightarrow>
          (let (j', lg') = fireJob h write_ok ts_now now (jobs eng ! k) (eventLog eng)
           in save save_ok (eng\<lparr>jobs := (jobs eng)[k := j'], eventLog := lg'\<rparr>)))"

subsection \<open>When a schedule does not resolve, in the words of the specification\<close>

text \<open>
  A spent one-shot is a one-shot job that has fired.
\<close>

definition spent_one_shot :: "CronJob \<Rightarrow> bool" where
  "spent_one_shot j = (case schedule j of At _ \<Rightarrow> lastRunAtMs (state j) \<noteq> None | _ \<Rightarrow> False)"

text \<open>
  A duration is written as hours, minutes and seconds in this order, each component a
  decimal number followed by its unit letter, each of them optional, with nothing else
  around them but the white space that \<open>trim\<close> removes. It is valid when it is so written
  and is not zero; \<open>ms\<close> is then its length in milliseconds.
\<close>

definition digits :: "string \<Rightarrow> bool" where
  "digits ds \<longleftrightarrow> ds \<noteq> [] \<and> list_all is_digit ds"

definition component :: "char \<Rightarrow> string \<Rightarrow> nat \<Rightarrow> bool" where
  "component u g v \<longleftrightarrow>
     (g = [] \<and> v = 0) \<or> (\<exists>ds. digits ds \<and> g = ds @ [u] \<and> v = nat_of_digits ds)"

definition duration_text :: "string \<Rightarrow> nat \<Rightarrow> nat \<Rightarrow> nat \<Rightarrow> bool" where
  "duration_text t h m s \<longleftrightarrow>
     (\<exists>gh gm gs. t = gh @ gm @ gs \<and> component CHR ''h'' gh h \<and> component CHR ''m'' gm m
        \<and> component CHR ''s'' gs s)"

definition valid_duration :: "string \<Rightarrow> int \<Rightarrow> bool" where
  "valid_duration e ms \<longleftrightarrow>
     (\<exists>h m s. duration_text (trim e) h m s \<and> ms = int ((h * 3600 + m * 60 + s) * 1000) \<and> 0 < ms)"

text \<open>
  A part of a cron field is a step form (\<^verbatim>\<open>*/n\<close> or \<^verbatim>\<open>a-b/n\<close> with a positive step), a range
  \<^verbatim>\<open>a-b\<close>, the star, or else anything the host reads as a number; \<open>stepped a b n\<close> are
  the values from \<open>a\<close> up to \<open>b\<close> in steps of \<open>n\<close>. A step form with step zero has no
  values at all, and the star stands for 0 to 59 in every field.
\<close>

definition stepped :: "nat \<Rightarrow> nat \<Rightarrow> nat \<Rightarrow> int list" where
  "stepped a b n = map (\<lambda>i. int (a + i * n)) [0 ..< (if b < a then 0 else (b - a) div n + 1)]"

definition range_text :: "string \<Rightarrow> nat \<Rightarrow> nat \<Rightarrow> bool" where
  "range_text p a b \<longleftrightarrow>
     (\<exists>da db. digits da \<and> digits db \<and> p = da @ ''-'' @ db
        \<and> a = nat_of_digits da \<and> b = nat_of_digits db)"

definition step_text :: "string \<Rightarrow> nat \<Rightarrow> nat \<Rightarrow> nat \<Rightarrow> bool" where
  "step_text p a b n \<longleftrightarrow>
     (\<exists>pre ds. digits ds \<and> p = pre @ ''/'' @ ds \<and> n = nat_of_digits ds
        \<and> ((pre = ''*'' \<and> a = 0 \<and> b = 59) \<or> range_text pre a b))"

definition part_values :: "host \<Rightarrow> string \<Rightarrow> int list \<Rightarrow> bool" where
  "part_values h p vs \<longleftrightarrow>
     (\<exists>a b n. step_text p a b n \<and> 0 < n \<and> vs = stepped a b n)
     \<or> (\<exists>a b. range_text p a b \<and> vs = stepped a b 1)
     \<or> (p = ''*'' \<and> vs = stepped 0 59 1)
     \<or> ((\<forall>a b n. \<not> step_text p a b n) \<and> (\<forall>a b. \<not> range_text p a b) \<and> p \<noteq> ''*''
         \<and> (\<exists>v. js_Number h p = Some v \<and> vs = [v]))"

text \<open>
  A field is a comma-separated list of parts with at least one value between them. A
  cron expression is well formed when it has five fields separated by white space; it is
  malformed otherwise, and unsatisfiable at a reference time when it is well formed and
  no minute from the one after the reference time up to 366 days ahead matches.
\<close>

definition field_values :: "host \<Rightarrow> string \<Rightarrow> int list \<Rightarrow> bool" where
  "field_values h f vs \<longleftrightarrow>
     (\<exists>vss. list_all2 (part_values h) (split_on CHR '','' f) vss \<and> vs = concat vss \<and> vs \<noteq> [])"

definition cron_fields :: "host \<Rightarrow> string \<Rightarrow> int list list \<Rightarrow> bool" where
  "cron_fields h expr fs \<longleftrightarrow>
     length (split_ws (trim expr)) = 5 \<and> list_all2 (field_values h) (split_ws (trim expr)) fs"

definition malformed_cron :: "host \<Rightarrow> string \<Rightarrow> bool" where
  "malformed_cron h expr \<longleftrightarrow> \<not> (\<exists>fs. cron_fields h expr fs)"

definition unsatisfiable_cron :: "host \<Rightarrow> string \<Rightarrow> int \<Rightarrow> bool" where
  "unsatisfiable_cron h expr afterMs \<longleftrightarrow>
     (\<exists>fs. cron_fields h expr fs
        \<and> (\<forall>k::nat. (afterMs - afterMs mod minute_ms) + minute_ms + int k * minute_ms
                       < afterMs + 366 * 24 * 60 * 60 * 1000 \<longrightarrow>
             \<not> cron_matches h fs ((afterMs - afterMs mod minute_ms) + minute_ms + int k * minute_ms)))"

text \<open>
  A schedule is unparseable when its timestamp is invalid, its duration is invalid or
  zero, or its cron expression is malformed or unsatisfiable.
\<close>

definition unparseable :: "host \<Rightarrow> CronSchedule \<Rightarrow> int \<Rightarrow> bool" where
  "unparseable h sched afterMs =
     (case sched of
        At a \<Rightarrow> parseDate h a = None
      | Every e \<Rightarrow> \<not> (\<exists>ms. valid_duration e ms)
      | Cron c \<Rightarrow> malformed_cron h c \<or> unsatisfiable_cron h c afterMs)"

text \<open>A one-shot whose timestamp is valid but not after the reference time.\<close>

definition past_one_shot :: "host \<Rightarrow> CronSchedule \<Rightarrow> int \<Rightarrow> bool" where
  "past_one_shot h sched afterMs =
     (case sched of
        At a \<Rightarrow> (case parseDate h a of None \<Rightarrow> False | Some t \<Rightarrow> t \<le> afterMs)
      | _ \<Rightarrow> False)"

section \<open>Heartbeat\<close>

definition HEARTBEAT_JOB_NAME :: string where
  "HEARTBEAT_JOB_NAME = ''__heartbeat__''"

record ActiveHours =
  ah_start :: string
  ah_end :: string
  timezone :: string

record HeartbeatConfig =
  hb_enabled :: bool
  every :: string
  prompt :: string
  activeHours :: "ActiveHours option"

subsection \<open>Active hours\<close>

text \<open>
  \<^verbatim>\<open>/^(\d{1,2}):(\d{2})$/\<close>: one or two digits, a colon, exactly two digits, nothing
  else; then the bounds on hours and minutes.
\<close>

definition parseHHMM :: "string \<Rightarrow> int option" where
  "parseHHMM s =
     (let hs = takeWhile is_digit s; r = dropWhile is_digit s
      in if (length hs = 1 \<or> length hs = 2) \<and> r \<noteq> [] \<and> hd r = CHR '':''
            \<and> length (tl r) = 2 \<and> list_all is_digit (tl r)
         then (let h = nat_of_digits hs; mi = nat_of_digits (tl r)
               in if h > 23 \<or> mi > 59 then None else Some (int (h * 60 + mi)))
         else None)"

text \<open>
  \<open>cm\<close> is \<^verbatim>\<open>currentMinutesInTimezone\<close>, which reads the host's clock and time-zone
  database: the minutes since local midnight for a zone name and an optional instant.
\<close>

definition isWithinActiveHours ::
  "(string \<Rightarrow> int option \<Rightarrow> int) \<Rightarrow> ActiveHours option \<Rightarrow> int option \<Rightarrow> bool" where
  "isWithinActiveHours cm ah nowMs =
     (case ah of
        None \<Rightarrow> True
      | Some w \<Rightarrow>
         (case (parseHHMM (ah_start w), parseHHMM (ah_end w)) of
            (Some startMinutes, Some endMinutes) \<Rightarrow>
              (let nowMinutes = cm (timezone w) nowMs
               in if startMinutes \<le> endMinutes
                  then nowMinutes \<ge> startMinutes \<and> nowMinutes < endMinutes
                  else nowMinutes \<ge> startMinutes \<or> nowMinutes < endMinutes)
          | _ \<Rightarrow> True))"

text \<open>
  A valid \<^verbatim>\<open>HH:MM\<close> time in the words of the specification: one or two hour digits, a
  colon and two minute digits, hours at most 23 and minutes at most 59.
\<close>

fun valid_hhmm :: "string \<Rightarrow> bool" where
  "valid_hhmm [h1, c, m1, m2] =
     (is_digit h1 \<and> c = CHR '':'' \<and> is_digit m1 \<and> is_digit m2 \<and> nat_of_digits [m1, m2] \<le> 59)"
| "valid_hhmm [h1, h2, c, m1, m2] =
     (is_digit h1 \<and> is_digit h2 \<and> c = CHR '':'' \<and> is_digit m1 \<and> is_digit m2
      \<and> nat_of_digits [h1, h2] \<le> 23 \<and> nat_of_digits [m1, m2] \<le> 59)"
| "valid_hhmm _ = False"

subsection \<open>Duplicate suppression\<close>

record HeartbeatDedup =
  lastText :: "string option"
  lastSentAt :: int
  windowMs :: int

definition new_dedup :: "int option \<Rightarrow> HeartbeatDedup" where
  "new_dedup w = \<lparr>lastText = None, lastSentAt = 0,
                  windowMs = (case w of None \<Rightarrow> 24 * 60 * 60 * 1000 | Some m \<Rightarrow> m)\<rparr>"

definition isDuplicate :: "HeartbeatDedup \<Rightarrow> string \<Rightarrow> int \<Rightarrow> bool" where
  "isDuplicate d text nowMs =
     (case lastText d of
        None \<Rightarrow> False
      | Some t \<Rightarrow> if text \<noteq> t then False else (nowMs - lastSentAt d) < windowMs d)"

definition record_dedup :: "HeartbeatDedup \<Rightarrow> string \<Rightarrow> int \<Rightarrow> HeartbeatDedup" where
  "record_dedup d text nowMs = d\<lparr>lastText := Some text, lastSentAt := nowMs\<rparr>"

subsection \<open>Response parser\<close>

datatype HeartbeatStatus = HEARTBEAT_OK | CHAT_YES | CHAT_NO

record ParsedHeartbeatResponse =
  status :: HeartbeatStatus
  reason :: string
  content :: string
  unparsed :: bool

text \<open>
  The three regular expressions carry the flags \<^verbatim>\<open>i\<close> and \<^verbatim>\<open>m\<close> (and \<^verbatim>\<open>s\<close> for the last
  two). Case is folded on ASCII letters; \<^verbatim>\<open>^\<close> holds at the start of the input and after
  a line terminator; \<^verbatim>\<open>$\<close> holds at the end of the input and before a line terminator;
  \<^verbatim>\<open>\s\<close> matches line terminators too, so white space may run over several lines.
\<close>

definition upper :: "char \<Rightarrow> char" where
  "upper c = (case map_of (zip ''abcdefghijklmnopqrstuvwxyz'' ''ABCDEFGHIJKLMNOPQRSTUVWXYZ'') c of
                None \<Rightarrow> c | Some u \<Rightarrow> u)"

fun ci_prefix :: "string \<Rightarrow> string \<Rightarrow> string option" where
  \<comment> \<open>the input after the keyword, when it starts with the keyword up to case\<close>
  "ci_prefix [] s = Some s"
| "ci_prefix (k # ks) [] = None"
| "ci_prefix (k # ks) (c # cs) = (if upper c = upper k then ci_prefix ks cs else None)"

fun scan_lines :: "(string \<Rightarrow> 'a option) \<Rightarrow> bool \<Rightarrow> string \<Rightarrow> 'a option" where
  \<comment> \<open>\<^verbatim>\<open>exec\<close>: the first position where \<^verbatim>\<open>^\<close> holds and the rest of the pattern matches\<close>
  "scan_lines f bol [] = (if bol then f [] else None)"
| "scan_lines f bol (c # cs) =
     (case (if bol then f (c # cs) else None) of
        Some r \<Rightarrow> Some r
      | None \<Rightarrow> scan_lines f (is_line_terminator c) cs)"

definition at_line_end :: "string \<Rightarrow> bool" where
  \<comment> \<open>\<^verbatim>\<open>\s*$\<close>: after some of the white space ahead, the input ends or a line ends\<close>
  "at_line_end s =
     (let r = dropWhile (\<lambda>c. is_space c \<and> \<not> is_line_terminator c) s
      in r = [] \<or> is_line_terminator (hd r))"

fun first_some :: "('a \<Rightarrow> 'b option) \<Rightarrow> 'a list \<Rightarrow> 'b option" where
  "first_some f [] = None"
| "first_some f (x # xs) = (case f x of Some y \<Rightarrow> Some y | None \<Rightarrow> first_some f xs)"

definition status_tokens :: "(string \<times> HeartbeatStatus) list" where
  "status_tokens = [(''HEARTBEAT_OK'', HEARTBEAT_OK), (''CHAT_YES'', CHAT_YES), (''CHAT_NO'', CHAT_NO)]"

definition status_at :: "string \<Rightarrow> HeartbeatStatus option" where
  \<comment> \<open>\<^verbatim>\<open>\s*STATUS:\s*(HEARTBEAT_OK|CHAT_YES|CHAT_NO)\s*$\<close> at a line start\<close>
  "status_at s =
     (case ci_prefix ''STATUS:'' (dropWhile is_space s) of
        None \<Rightarrow> None
      | Some r \<Rightarrow>
          first_some (\<lambda>(tok, st). case ci_prefix tok (dropWhile is_space r) of
                                    None \<Rightarrow> None
                                  | Some rest \<Rightarrow> if at_line_end rest then Some st else None)
            status_tokens)"

definition reason_lookahead :: "string \<Rightarrow> bool" where
  \<comment> \<open>\<^verbatim>\<open>(?=\n\s*(?:STATUS|CONTENT):|\s*$)\<close>\<close>
  "reason_lookahead s =
     ((case s of
         c # cs \<Rightarrow> c = CHR 0x0A \<and>
           (ci_prefix ''STATUS:'' (dropWhile is_space cs) \<noteq> None
            \<or> ci_prefix ''CONTENT:'' (dropWhile is_space cs) \<noteq> None)
       | [] \<Rightarrow> False)
      \<or> at_line_end s)"

fun lazy_more :: "(string \<Rightarrow> bool) \<Rightarrow> string \<Rightarrow> string \<Rightarrow> string option" where
  \<comment> \<open>\<^verbatim>\<open>(.+?)\<close> before a lookahead: the shortest non-empty prefix after which it holds\<close>
  "lazy_more la acc [] = None"
| "lazy_more la acc (c # cs) = (if la cs then Some (rev (c # acc)) else lazy_more la (c # acc) cs)"

definition greedy_rest :: "string \<Rightarrow> string option" where
  \<comment> \<open>\<^verbatim>\<open>(.+)\<close> under the flag \<^verbatim>\<open>s\<close>: all that is left, if anything is\<close>
  "greedy_rest s = (if s = [] then None else Some s)"

definition after_spaces :: "(string \<Rightarrow> 'a option) \<Rightarrow> string \<Rightarrow> 'a option" where
  \<comment> \<open>a greedy \<^verbatim>\<open>\s*\<close> followed by \<open>f\<close>: all the white space first, then one less, ...\<close>
  "after_spaces f r =
     first_some (\<lambda>k. f (drop k r)) (rev [0 ..< Suc (length (takeWhile is_space r))])"

definition reason_at :: "string \<Rightarrow> string option" where
  "reason_at s =
     (case ci_prefix ''REASON:'' (dropWhile is_space s) of
        None \<Rightarrow> None
      | Some r \<Rightarrow> after_spaces (lazy_more reason_lookahead []) r)"

definition content_at :: "string \<Rightarrow> string option" where
  "content_at s =
     (case ci_prefix ''CONTENT:'' (dropWhile is_space s) of
        None \<Rightarrow> None
      | Some r \<Rightarrow> after_spaces greedy_rest r)"

definition parseHeartbeatResponse :: "string \<Rightarrow> ParsedHeartbeatResponse" where
  "parseHeartbeatResponse raw =
     (let trimmed = trim raw in
      if trimmed = [] then
        \<lparr>status = HEARTBEAT_OK, reason = ''empty response'', content = [], unparsed = False\<rparr>
      else case scan_lines status_at True trimmed of
        None \<Rightarrow> \<lparr>status = CHAT_YES, reason = ''unparsed response'', content = trimmed,
                  unparsed = True\<rparr>
      | Some st \<Rightarrow>
          \<lparr>status = st,
           reason = (case scan_lines reason_at True trimmed of None \<Rightarrow> [] | Some g \<Rightarrow> trim g),
           content = (case scan_lines content_at True trimmed of None \<Rightarrow> [] | Some g \<Rightarrow> trim g),
           unparsed = False\<rparr>)"

text \<open>
  The status pattern as the regular expression reads it: somewhere in the text, at the
  start of a line, stand \<^verbatim>\<open>STATUS:\<close> and one of the three tokens, in any case, with
  \<^verbatim>\<open>\s*\<close> before, between and after them, up to the end of a line. As \<^verbatim>\<open>\s\<close> matches
  line terminators, the keyword and the token may stand on different lines.
\<close>

definition status_word :: "string \<Rightarrow> bool" where
  "status_word t \<longleftrightarrow> t = ''HEARTBEAT_OK'' \<or> t = ''CHAT_YES'' \<or> t = ''CHAT_NO''"

definition has_status :: "string \<Rightarrow> bool" where
  "has_status s \<longleftrightarrow>
     (\<exists>pre ws1 kw ws2 tok ws3 post.
        s = pre @ ws1 @ kw @ ws2 @ tok @ ws3 @ post
        \<and> (pre = [] \<or> is_line_terminator (last pre))
        \<and> list_all is_space ws1 \<and> map upper kw = ''STATUS:''
        \<and> list_all is_space ws2
        \<and> status_word (map upper tok)
        \<and> list_all is_space ws3
        \<and> (post = [] \<or> is_line_terminator (hd post)))"

text \<open>
  The same two notions for an arbitrary keyword \<open>K\<close> and token table, on which the
  matcher and the pattern are compared.
\<close>

definition pat_at :: "string \<Rightarrow> (string \<times> 'a) list \<Rightarrow> string \<Rightarrow> 'a option" where
  "pat_at K toks s =
     (case ci_prefix K (dropWhile is_space s) of
        None \<Rightarrow> None
      | Some r \<Rightarrow>
          first_some (\<lambda>(tok, st). case ci_prefix tok (dropWhile is_space r) of
                                    None \<Rightarrow> None
                                  | Some rest \<Rightarrow> if at_line_end rest then Some st else None)
            toks)"

definition has_pat :: "string \<Rightarrow> (string \<Rightarrow> bool) \<Rightarrow> string \<Rightarrow> bool" where
  "has_pat K W s \<longleftrightarrow>
     (\<exists>pre ws1 kw ws2 tok ws3 post.
        s = pre @ ws1 @ kw @ ws2 @ tok @ ws3 @ post
        \<and> (pre = [] \<or> is_line_terminator (last pre))
        \<and> list_all is_space ws1 \<and> map upper kw = K
        \<and> list_all is_space ws2
        \<and> W (map upper tok)
        \<and> list_all is_space ws3
        \<and> (post = [] \<or> is_line_terminator (hd post)))"

text \<open>
  The status line in the words of the specification: a line of the reply (a piece
  without line terminator, between two of them or an end of the text) that consists of
  \<^verbatim>\<open>STATUS:\<close> and one of the three tokens, in any case, with white space around them.
  \<open>split_status\<close> is the other way for the pattern to occur: a line terminator stands
  in the white space between the keyword and the token.
\<close>

definition no_break :: "string \<Rightarrow> bool" where
  "no_break s \<longleftrightarrow> list_all (\<lambda>c. \<not> is_line_terminator c) s"

definition is_line :: "string \<Rightarrow> string \<Rightarrow> bool" where
  "is_line l s \<longleftrightarrow>
     (\<exists>pre post. s = pre @ l @ post
        \<and> (pre = [] \<or> is_line_terminator (last pre))
        \<and> no_break l
        \<and> (post = [] \<or> is_line_terminator (hd post)))"

definition status_line :: "string \<Rightarrow> bool" where
  "status_line l \<longleftrightarrow>
     (\<exists>ws1 kw ws2 tok ws3.
        l = ws1 @ kw @ ws2 @ tok @ ws3
        \<and> list_all is_space ws1 \<and> map upper kw = ''STATUS:''
        \<and> list_all is_space ws2
        \<and> status_word (map upper tok)
        \<and> list_all is_space ws3)"

definition has_status_line :: "string \<Rightarrow> bool" where
  "has_status_line s \<longleftrightarrow> (\<exists>l. is_line l s \<and> status_line l)"

definition split_status :: "string \<Rightarrow> bool" where
  "split_status s \<longleftrightarrow>
     (\<exists>pre ws1 kw ws2 tok ws3 post.
        s = pre @ ws1 @ kw @ ws2 @ tok @ ws3 @ post
        \<and> (pre = [] \<or> is_line_terminator (last pre))
        \<and> list_all is_space ws1 \<and> map upper kw = ''STATUS:''
        \<and> list_all is_space ws2 \<and> \<not> no_break ws2
        \<and> status_word (map upper tok)
        \<and> list_all is_space ws3
        \<and> (post = [] \<or> is_line_terminator (hd post)))"

text \<open>The same for an arbitrary keyword and token table.\<close>

definition line_pat :: "string \<Rightarrow> (string \<Rightarrow> bool) \<Rightarrow> string \<Rightarrow> bool" where
  "line_pat K W l \<longleftrightarrow>
     (\<exists>ws1 kw ws2 tok ws3.
        l = ws1 @ kw @ ws2 @ tok @ ws3
        \<and> list_all is_space ws1 \<and> map upper kw = K
        \<and> list_all is_space ws2
        \<and> W (map upper tok)
        \<and> list_all is_space ws3)"

definition split_pat :: "string \<Rightarrow> (string \<Rightarrow> bool) \<Rightarrow> string \<Rightarrow> bool" where
  "split_pat K W s \<longleftrightarrow>
     (\<exists>pre ws1 kw ws2 tok ws3 post.
        s = pre @ ws1 @ kw @ ws2 @ tok @ ws3 @ post
        \<and> (pre = [] \<or> is_line_terminator (last pre))
        \<and> list_all is_space ws1 \<and> map upper kw = K
        \<and> list_all is_space ws2 \<and> \<not> no_break ws2
        \<and> W (map upper tok)
        \<and> list_all is_space ws3
        \<and> (post = [] \<or> is_line_terminator (hd post)))"

section \<open>Fire handlers\<close>

record CronFirePayload =
  jobId :: string
  jobName :: string
  fire_payload :: string

text \<open>
  What a handler does to the world outside the log: a call of the conversation engine
  with a prompt, and a delivery attempt with its text and whether it resolved.
\<close>

datatype effect = AskEngine string | Deliver string bool

text \<open>
  What one invocation meets, in the order of the code: the clock readings, the engine's
  answer (\<open>Inl\<close> the message of the error it throws), what \<^verbatim>\<open>resolveDeliveryTarget()\<close>
  returns (\<open>None\<close> for null, otherwise whether \<^verbatim>\<open>deliver\<close> resolves), and for the append
  in the \<^verbatim>\<open>try\<close> block and the one in the \<^verbatim>\<open>catch\<close> block whether the disk write succeeds
  and the log's own \<^verbatim>\<open>Date.now()\<close>.
\<close>

record env =
  t_guard :: int
  engine_reply :: "string + string"
  t_replied :: int
  t_dedup :: int
  target :: "bool option"
  t_record :: int
  append_ok :: bool
  append_ts :: int
  io_message :: string
  t_error :: int
  error_append_ok :: bool
  error_append_ts :: int

subsection \<open>Heartbeat\<close>

text \<open>
  The state of a heartbeat: its configuration, the \<^verbatim>\<open>processing\<close> flag, the dedup
  object, the event log, and the effects so far. An invocation of \<^verbatim>\<open>handleFire\<close> that
  passed the guards is suspended at its \<^verbatim>\<open>await\<close>s; \<open>inflight\<close> holds what it captured
  (the payload and \<^verbatim>\<open>startMs\<close>). There is no other place where a fire event is kept.
\<close>

record Heartbeat =
  hb_config :: HeartbeatConfig
  processing :: bool
  dedup :: HeartbeatDedup
  inflight :: "(CronFirePayload \<times> int) option"
  hb_log :: EventLog
  hb_trace :: "effect list"

text \<open>The append of an invocation, inside \<^verbatim>\<open>try\<close>: a rejection carries the I/O message.\<close>

definition try_append :: "env \<Rightarrow> EventLog \<Rightarrow> string \<Rightarrow> payload \<Rightarrow> (string + unit) \<times> EventLog" where
  "try_append ev lg ty p =
     (case append lg (append_ok ev) (append_ts ev) ty p of
        (Inl _, lg') \<Rightarrow> (Inl (io_message ev), lg')
      | (Inr _, lg') \<Rightarrow> (Inr (), lg'))"

text \<open>
  The \<^verbatim>\<open>try\<close> block of the heartbeat's \<^verbatim>\<open>handleFire\<close>. The result is \<open>Inl\<close> with the
  message when the block throws; with it come the dedup object, the log and the new
  effects.
\<close>

definition hb_try ::
  "(string \<Rightarrow> int option \<Rightarrow> int) \<Rightarrow> HeartbeatConfig \<Rightarrow> env \<Rightarrow> CronFirePayload \<Rightarrow> int
     \<Rightarrow> HeartbeatDedup \<Rightarrow> EventLog \<Rightarrow> (string + unit) \<times> HeartbeatDedup \<times> EventLog \<times> effect list" where
  "hb_try cm cfg ev pl startMs dd lg =
     (if \<not> isWithinActiveHours cm (activeHours cfg) (Some (t_guard ev)) then
        (let (r, lg') = try_append ev lg ''heartbeat.skip'' (HeartbeatSkip ''outside-active-hours'' None)
         in (r, dd, lg', []))
      else case engine_reply ev of
        Inl msg \<Rightarrow> (Inl msg, dd, lg, [AskEngine (fire_payload pl)])
      | Inr result_text \<Rightarrow>
         (let durationMs = t_replied ev - startMs;
              parsed = parseHeartbeatResponse result_text
          in if status parsed = HEARTBEAT_OK \<or> status parsed = CHAT_NO then
               (let (r, lg') = try_append ev lg ''heartbeat.skip''
                      (HeartbeatSkip (if status parsed = HEARTBEAT_OK then ''ack'' else ''chat-no'')
                         (Some (reason parsed)))
                in (r, dd, lg', [AskEngine (fire_payload pl)]))
             else
               (let text = (if content parsed \<noteq> [] then content parsed else result_text)
                in if trim text = [] then
                     (let (r, lg') = try_append ev lg ''heartbeat.skip'' (HeartbeatSkip ''empty'' None)
                      in (r, dd, lg', [AskEngine (fire_payload pl)]))
                   else if isDuplicate dd text (t_dedup ev) then
                     (let (r, lg') = try_append ev lg ''heartbeat.skip'' (HeartbeatSkip ''duplicate'' None)
                      in (r, dd, lg', [AskEngine (fire_payload pl)]))
                   else
                     (let (delivered, dd', effs) =
                            (case target ev of
                               None \<Rightarrow> (False, dd, [])
                             | Some ok \<Rightarrow>
                                 if ok then (True, record_dedup dd text (t_record ev), [Deliver text True])
                                 else (False, dd, [Deliver text False]));
                          (r, lg') = try_append ev lg ''heartbeat.done''
                                       (HeartbeatDone text (reason parsed) durationMs delivered)
                      in (r, dd', lg', AskEngine (fire_payload pl) # effs)))))"

text \<open>
  \<^verbatim>\<open>handleFire\<close> up to \<^verbatim>\<open>const startMs = now()\<close>: the two guards, then the flag is set.
  \<open>startMs\<close> is the clock reading the invocation would take.
\<close>

definition hb_handleFire :: "Heartbeat \<Rightarrow> CronFirePayload \<Rightarrow> int \<Rightarrow> Heartbeat" where
  "hb_handleFire hb pl startMs =
     (if jobName pl \<noteq> HEARTBEAT_JOB_NAME then hb
      else if processing hb then hb
      else hb\<lparr>processing := True, inflight := Some (pl, startMs)\<rparr>)"

text \<open>
  The rest of the suspended invocation: the \<^verbatim>\<open>try\<close> block, the \<^verbatim>\<open>catch\<close> block that
  appends \<^verbatim>\<open>heartbeat.error\<close>, and \<^verbatim>\<open>finally\<close>. The result is \<open>Inl\<close> when the append of
  the \<^verbatim>\<open>catch\<close> block rejects, which the subscriber only logs.
\<close>

definition hb_resume ::
  "(string \<Rightarrow> int option \<Rightarrow> int) \<Rightarrow> env \<Rightarrow> Heartbeat \<Rightarrow> (error + unit) \<times> Heartbeat" where
  "hb_resume cm ev hb =
     (case inflight hb of
        None \<Rightarrow> (Inr (), hb)
      | Some (pl, startMs) \<Rightarrow>
         (let (r, dd', lg', effs) = hb_try cm (hb_config hb) ev pl startMs (dedup hb) (hb_log hb);
              hb1 = hb\<lparr>dedup := dd', hb_trace := hb_trace hb @ effs\<rparr>
          in case r of
               Inr _ \<Rightarrow> (Inr (), hb1\<lparr>hb_log := lg', processing := False, inflight := None\<rparr>)
             | Inl msg \<Rightarrow>
                (case append lg' (error_append_ok ev) (error_append_ts ev) ''heartbeat.error''
                        (HeartbeatError msg (t_error ev - startMs)) of
                   (Inl e, lg'') \<Rightarrow> (Inl e, hb1\<lparr>hb_log := lg'', processing := False, inflight := None\<rparr>)
                 | (Inr _, lg'') \<Rightarrow> (Inr (), hb1\<lparr>hb_log := lg'', processing := False, inflight := None\<rparr>))))"

text \<open>What reaches a listener: a fire event, or the continuation of the running invocation.\<close>

datatype input = Fire CronFirePayload int | Resume env

fun hb_run :: "(string \<Rightarrow> int option \<Rightarrow> int) \<Rightarrow> Heartbeat \<Rightarrow> input list \<Rightarrow> Heartbeat" where
  "hb_run cm hb [] = hb"
| "hb_run cm hb (Fire pl t # ins) = hb_run cm (hb_handleFire hb pl t) ins"
| "hb_run cm hb (Resume ev # ins) = hb_run cm (snd (hb_resume cm ev hb)) ins"

subsection \<open>Cron listener\<close>

record CronListener =
  cl_processing :: bool
  cl_inflight :: "(CronFirePayload \<times> int) option"
  cl_log :: EventLog
  cl_trace :: "effect list"

definition cl_handleFire :: "CronListener \<Rightarrow> CronFirePayload \<Rightarrow> int \<Rightarrow> CronListener" where
  "cl_handleFire cl pl startMs =
     (if jobName pl = HEARTBEAT_JOB_NAME then cl
      else if cl_processing cl then cl
      else cl\<lparr>cl_processing := True, cl_inflight := Some (pl, startMs)\<rparr>)"

text \<open>
  The \<^verbatim>\<open>try\<close> block of the listener: ask the engine, deliver (a rejected delivery is
  only logged), append \<^verbatim>\<open>cron.done\<close>.
\<close>

definition cl_try ::
  "env \<Rightarrow> CronFirePayload \<Rightarrow> int \<Rightarrow> EventLog \<Rightarrow> (string + unit) \<times> EventLog \<times> effect list" where
  "cl_try ev pl startMs lg =
     (case engine_reply ev of
        Inl msg \<Rightarrow> (Inl msg, lg, [AskEngine (fire_payload pl)])
      | Inr result_text \<Rightarrow>
         (let effs = (case target ev of None \<Rightarrow> [] | Some ok \<Rightarrow> [Deliver result_text ok]);
              (r, lg') = try_append ev lg ''cron.done''
                           (CronDone (jobId pl) (jobName pl) result_text (t_replied ev - startMs))
          in (r, lg', AskEngine (fire_payload pl) # effs)))"

definition cl_resume :: "env \<Rightarrow> CronListener \<Rightarrow> (error + unit) \<times> CronListener" where
  "cl_resume ev cl =
     (case cl_inflight cl of
        None \<Rightarrow> (Inr (), cl)
      | Some (pl, startMs) \<Rightarrow>
         (let (r, lg', effs) = cl_try ev pl startMs (cl_log cl);
              cl1 = cl\<lparr>cl_trace := cl_trace cl @ effs\<rparr>
          in case r of
               Inr _ \<Rightarrow> (Inr (), cl1\<lparr>cl_log := lg', cl_processing := False, cl_inflight := None\<rparr>)
             | Inl msg \<Rightarrow>
                (case append lg' (error_append_ok ev) (error_append_ts ev) ''cron.error''
                        (CronError (jobId pl) (jobName pl) msg (t_error ev - startMs)) of
                   (Inl e, lg'') \<Rightarrow>
                     (Inl e, cl1\<lparr>cl_log := lg'', cl_processing := False, cl_inflight := None\<rparr>)
                 | (Inr _, lg'') \<Rightarrow>
                     (Inr (), cl1\<lparr>cl_log := lg'', cl_processing := False, cl_inflight := None\<rparr>))))"

fun cl_run :: "CronListener \<Rightarrow> input list \<Rightarrow> CronListener" where
  "cl_run cl [] = cl"
| "cl_run cl (Fire pl t # ins) = cl_run (cl_handleFire cl pl t) ins"
| "cl_run cl (Resume ev # ins) = cl_run (snd (cl_resume ev cl)) ins"

section \<open>Sample values\<close>

text \<open>Concrete inputs on which the theorems below are exercised.\<close>

definition sample_host :: host where
  "sample_host = \<lparr>parseDate = (\<lambda>s. if s = ''2025-06-01T10:00:00Z'' then Some 1748772000000 else None),
                   numberOther = (\<lambda>_. None),
                   localTime = (\<lambda>t. \<lparr>getMonth = 5, getDate = 1, getDay = 0,
                                       getHours = (t div 3600000) mod 24,
                                       getMinutes = (t div 60000) mod 60\<rparr>)\<rparr>"

definition sample_log :: EventLog where
  "sample_log = \<lparr>log_file = None, seq_counter = 0, buffer = [], bufferSize = 500\<rparr>"

definition sample_job :: CronJob where
  "sample_job = \<lparr>job_id = ''a1b2c3d4'', name = ''check-eth'', enabled = True,
                  schedule = Every ''30m'', job_payload = ''Check ETH price'',
                  state = \<lparr>nextRunAtMs = Some 1800000, lastRunAtMs = None, lastStatus = None,
                           consecutiveErrors = 0\<rparr>,
                  createdAt = 0\<rparr>"

definition sample_engine :: CronEngine where
  "sample_engine = \<lparr>jobs = [sample_job], timer = None, stopped = False,
                     store = Some [sample_job], eventLog = sample_log\<rparr>"

definition sample_env :: env where
  "sample_env = \<lparr>t_guard = 1000, engine_reply = Inr ''STATUS: CHAT_YES'', t_replied = 1500,
                  t_dedup = 1501, target = Some True, t_record = 1502, append_ok = True,
                  append_ts = 1503, io_message = ''EIO'', t_error = 1504,
                  error_append_ok = True, error_append_ts = 1505\<rparr>"

definition sample_fire :: CronFirePayload where
  "sample_fire = \<lparr>jobId = ''a1b2c3d4'', jobName = ''__heartbeat__'', fire_payload = ''Check''\<rparr>"

text \<open>A heartbeat and a listener with an invocation in progress.\<close>

definition sample_heartbeat :: Heartbeat where
  "sample_heartbeat =
     \<lparr>hb_config = \<lparr>hb_enabled = True, every = ''30m'', prompt = ''Check'', activeHours = None\<rparr>,
      processing = True, dedup = new_dedup None, inflight = Some (sample_fire, 990),
      hb_log = sample_log, hb_trace = []\<rparr>"

definition sample_listener :: CronListener where
  "sample_listener =
     \<lparr>cl_processing = True,
      cl_inflight = Some (\<lparr>jobId = ''e5f6a7b8'', jobName = ''check-eth'', fire_payload = ''Check ETH''\<rparr>, 990),
      cl_log = sample_log, cl_trace = []\<rparr>"

text \<open>Seven successful appends, the sample run of the reopening scenario.\<close>

definition seven :: "(bool \<times> int \<times> string \<times> payload) list" where
  "seven = map (\<lambda>k. (True, 1000 + k, ''tick'', Opaque '''')) [1..7]"

text \<open>
  Engines after a few operations: a repeating job with the duration \<^verbatim>\<open>abc\<close> added; a
  one-shot for a future instant added, then fired by \<^verbatim>\<open>runNow\<close>, then enabled again.
\<close>

definition engine_bad_every :: CronEngine where
  "engine_bad_every =
     snd (add sample_host ''0badd00d'' True 1000 1000
            \<lparr>c_name = ''bad'', c_schedule = Every ''abc'', c_payload = ''x'', c_enabled = None\<rparr>
            sample_engine)"

definition engine_once :: CronEngine where
  "engine_once =
     snd (add sample_host ''0ce0ce00'' True 1000 1000
            \<lparr>c_name = ''once'', c_schedule = At ''2025-06-01T10:00:00Z'', c_payload = ''x'',
             c_enabled = None\<rparr>
            sample_engine)"

definition engine_once_fired :: CronEngine where
  "engine_once_fired = snd (runNow sample_host True True 1500 1500 ''0ce0ce00'' engine_once)"

definition engine_once_reenabled :: CronEngine where
  "engine_once_reenabled =
     snd (update sample_host True 2000 2000 ''0ce0ce00''
            \<lparr>p_name = None, p_schedule = None, p_payload = None, p_enabled = Some True\<rparr>
            engine_once_fired)"

chapter \<open>Properties\<close>

section \<open>Event log: sequence numbers\<close>

lemma append_ok_seq:
  "append lg ok now ty p = (Inr e, lg') \<Longrightarrow>
     ok \<and> seq e = seq_counter lg + 1 \<and> seq_counter lg' = seq_counter lg + 1
     \<and> log_file lg' = appendFile (log_file lg) (Json e) \<and> bufferSize lg' = bufferSize lg"
  by (auto simp: append_def Let_def split: if_splits)

text \<open>A rejected write still consumes a sequence number: the next entry leaves a gap.\<close>

lemma append_rejected_write:
  "append lg False now ty p = (Inl IoError, lg\<lparr>seq_counter := seq_counter lg + 1\<rparr>)"
  by (simp add: append_def Let_def)

lemma appendFile_lines: "appendFile d l = Some (disk_lines d @ [l])"
  by (simp add: appendFile_def disk_lines_def split: option.splits)

lemma append_all_seq:
  "append_all lg evs = (Inr entries, lg') \<Longrightarrow>
     length entries = length evs
     \<and> map seq entries = [seq_counter lg + 1 .. seq_counter lg + int (length evs)]
     \<and> seq_counter lg' = seq_counter lg + int (length evs)
     \<and> (evs \<noteq> [] \<longrightarrow> log_file lg' = Some (disk_lines (log_file lg) @ map Json entries))
     \<and> (evs = [] \<longrightarrow> lg' = lg)"
proof (induction evs arbitrary: lg entries)
  case Nil
  then show ?case by simp
next
  case (Cons ev evs)
  obtain ok now ty p where ev: "ev = (ok, now, ty, p)" by (cases ev) auto
  from Cons.prems ev obtain e lg1 es where
    a: "append lg ok now ty p = (Inr e, lg1)" and
    r: "append_all lg1 evs = (Inr es, lg')" and
    en: "entries = e # es"
    by (auto split: prod.splits sum.splits)
  note s = append_ok_seq[OF a]
  note ih = Cons.IH[OF r]
  have m: "map seq entries = [seq_counter lg + 1 .. seq_counter lg + int (length (ev # evs))]"
    using s ih en upto_rec1[of "seq_counter lg + 1" "seq_counter lg + 1 + int (length evs)"]
    by (simp add: add.commute add.left_commute)
  have f: "log_file lg' = Some (disk_lines (log_file lg) @ map Json entries)"
  proof (cases "evs = []")
    case True
    with ih s en r show ?thesis by (auto simp: appendFile_lines)
  next
    case False
    with ih s en show ?thesis by (simp add: appendFile_lines disk_lines_def)
  qed
  from s ih en m f show ?case by simp
qed

lemma parse_lines_Json: "parse_lines (map Json es) = es"
  by (induction es) auto

lemma collect_all: "collect a None None acc es = acc @ filter (\<lambda>e. a < seq e) es"
  by (induction es arbitrary: acc) (auto simp: Let_def)

lemma append_all_succeeds:
  "\<forall>ev \<in> set evs. fst ev \<Longrightarrow> \<exists>entries lg'. append_all lg evs = (Inr entries, lg')"
proof (induction evs arbitrary: lg)
  case Nil
  then show ?case by simp
next
  case (Cons ev evs)
  obtain ok now ty p where ev: "ev = (ok, now, ty, p)" by (cases ev) auto
  with Cons.prems have ok by simp
  then obtain e lg1 where a: "append lg ok now ty p = (Inr e, lg1)"
    by (simp add: append_def Let_def)
  from Cons.prems have "\<forall>ev \<in> set evs. fst ev" by simp
  from Cons.IH[OF this, of lg1] obtain es lg2 where "append_all lg1 evs = (Inr es, lg2)" by blast
  with a ev show ?case by simp
qed

lemma append_fresh_run:
  assumes fresh: "d = None \<or> d = Some []"
    and created: "createEventLog d True bs = Inr lg0"
    and appended: "append_all lg0 evs = (Inr entries, lg)"
  shows "length entries = length evs
       \<and> map seq entries = [1 .. int (length evs)]
       \<and> lastSeq lg = int (length evs)
       \<and> read_log lg True no_opts = Inr entries"
proof -
  from fresh created have lg0: "seq_counter lg0 = 0" "disk_lines (log_file lg0) = []"
    "parse_lines (disk_lines (log_file lg0)) = []"
    by (auto simp: createEventLog_def recoverState_def blank_raw_def disk_lines_def)
  note s = append_all_seq[OF appended]
  have pos: "\<forall>e \<in> set entries. 0 < seq e"
  proof
    fix e assume "e \<in> set entries"
    then have "seq e \<in> set (map seq entries)" by simp
    with s lg0 show "0 < seq e" by simp
  qed
  have rd: "read_log lg True no_opts = Inr entries"
  proof (cases "evs = []")
    case True
    with s lg0 fresh created show ?thesis
      by (auto simp: read_log_def no_opts_def createEventLog_def recoverState_def blank_raw_def)
  next
    case False
    with s lg0 have "log_file lg = Some (map Json entries)" by simp
    with pos show ?thesis
      by (simp add: read_log_def no_opts_def parse_lines_Json collect_all filter_id_conv)
  qed
  from s lg0 rd show ?thesis by (simp add: lastSeq_def)
qed

lemma create_fresh:
  "d = None \<or> d = Some [] \<Longrightarrow> \<exists>lg0. createEventLog d True bs = Inr lg0"
  by (auto simp: createEventLog_def recoverState_def blank_raw_def)

text \<open>
  The run of a caller that catches the rejection and goes on: the second of three writes
  is rejected, the entries carry 1 and 3.
\<close>

lemma rejected_write_leaves_gap:
  "fst (append sample_log True 10 ''a'' (Opaque ''x''))
     = Inr \<lparr>seq = 1, ts = 10, type = ''a'', payload = Opaque ''x''\<rparr>
   \<and> fst (append (snd (append sample_log True 10 ''a'' (Opaque ''x''))) False 11 ''b'' (Opaque ''y''))
     = Inl IoError
   \<and> fst (append (snd (append (snd (append sample_log True 10 ''a'' (Opaque ''x'')))
                          False 11 ''b'' (Opaque ''y''))) True 12 ''c'' (Opaque ''z''))
     = Inr \<lparr>seq = 3, ts = 12, type = ''c'', payload = Opaque ''z''\<rparr>"
  by (simp add: append_def sample_log_def Let_def appendFile_def)

text \<open>
  Claim C1. On a log created over an absent or empty file, appending \<open>N\<close> events in sequence,
  each write accepted by the disk, succeeds and returns entries whose sequence numbers are
  \<open>1, 2, ..., N\<close> in append order; afterwards \<open>lastSeq\<close> is \<open>N\<close> and reading the file back
  gives exactly these entries. Every accepted append returns the previous \<open>lastSeq\<close> plus
  one and leaves \<open>lastSeq\<close> at the number it returned.
\<close>

theorem append_fresh_seq:
  assumes fresh: "d = None \<or> d = Some []"
    and accepted: "\<forall>ev \<in> set evs. fst ev"
  shows "\<exists>lg0 entries lg.
           createEventLog d True bs = Inr lg0
         \<and> append_all lg0 evs = (Inr entries, lg)
         \<and> length entries = length evs
         \<and> map seq entries = [1 .. int (length evs)]
         \<and> lastSeq lg = int (length evs)
         \<and> read_log lg True no_opts = Inr entries
         \<and> (\<forall>l now ty p. \<exists>e l'. append l True now ty p = (Inr e, l')
                \<and> seq e = lastSeq l + 1 \<and> lastSeq l' = seq e)"
proof -
  from create_fresh[OF fresh] obtain lg0 where c: "createEventLog d True bs = Inr lg0" by blast
  from append_all_succeeds[OF accepted] obtain entries lg
    where a: "append_all lg0 evs = (Inr entries, lg)" by blast
  have step: "\<forall>l now ty p. \<exists>e l'. append l True now ty p = (Inr e, l')
                \<and> seq e = lastSeq l + 1 \<and> lastSeq l' = seq e"
    by (simp add: append_def Let_def lastSeq_def)
  from append_fresh_run[OF fresh c a] c a step show ?thesis by blast
qed

theorem append_fresh_seq_witness:
  "createEventLog None True None
     = Inr \<lparr>log_file = None, seq_counter = 0, buffer = [], bufferSize = 500\<rparr>
   \<and> append_all \<lparr>log_file = None, seq_counter = 0, buffer = [], bufferSize = 500\<rparr>
        [(True, 10, ''a'', Opaque ''x''), (True, 11, ''b'', Opaque ''y''), (True, 12, ''c'', Opaque ''z'')]
     = (Inr [\<lparr>seq = 1, ts = 10, type = ''a'', payload = Opaque ''x''\<rparr>,
             \<lparr>seq = 2, ts = 11, type = ''b'', payload = Opaque ''y''\<rparr>,
             \<lparr>seq = 3, ts = 12, type = ''c'', payload = Opaque ''z''\<rparr>],
        \<lparr>log_file = Some [Json \<lparr>seq = 1, ts = 10, type = ''a'', payload = Opaque ''x''\<rparr>,
                          Json \<lparr>seq = 2, ts = 11, type = ''b'', payload = Opaque ''y''\<rparr>,
                          Json \<lparr>seq = 3, ts = 12, type = ''c'', payload = Opaque ''z''\<rparr>],
         seq_counter = 3,
         buffer = [\<lparr>seq = 1, ts = 10, type = ''a'', payload = Opaque ''x''\<rparr>,
                   \<lparr>seq = 2, ts = 11, type = ''b'', payload = Opaque ''y''\<rparr>,
                   \<lparr>seq = 3, ts = 12, type = ''c'', payload = Opaque ''z''\<rparr>],
         bufferSize = 500\<rparr>)
   \<and> map seq [\<lparr>seq = 1, ts = 10, type = ''a'', payload = Opaque ''x''\<rparr>,
             \<lparr>seq = 2, ts = 11, type = ''b'', payload = Opaque ''y''\<rparr>,
             \<lparr>seq = 3, ts = 12, type = ''c'', payload = Opaque ''z''\<rparr>]
       = [1 .. int (length [(True, 10::int, ''a'', Opaque ''x''), (True, 11, ''b'', Opaque ''y''),
                            (True, 12, ''c'', Opaque ''z'')])]
   \<and> lastSeq \<lparr>log_file = Some [Json \<lparr>seq = 1, ts = 10, type = ''a'', payload = Opaque ''x''\<rparr>,
                          Json \<lparr>seq = 2, ts = 11, type = ''b'', payload = Opaque ''y''\<rparr>,
                          Json \<lparr>seq = 3, ts = 12, type = ''c'', payload = Opaque ''z''\<rparr>],
         seq_counter = 3,
         buffer = [\<lparr>seq = 1, ts = 10, type = ''a'', payload = Opaque ''x''\<rparr>,
                   \<lparr>seq = 2, ts = 11, type = ''b'', payload = Opaque ''y''\<rparr>,
                   \<lparr>seq = 3, ts = 12, type = ''c'', payload = Opaque ''z''\<rparr>],
         bufferSize = 500\<rparr> = 3
   \<and> read_log \<lparr>log_file = Some [Json \<lparr>seq = 1, ts = 10, type = ''a'', payload = Opaque ''x''\<rparr>,
                          Json \<lparr>seq = 2, ts = 11, type = ''b'', payload = Opaque ''y''\<rparr>,
                          Json \<lparr>seq = 3, ts = 12, type = ''c'', payload = Opaque ''z''\<rparr>],
         seq_counter = 3,
         buffer = [\<lparr>seq = 1, ts = 10, type = ''a'', payload = Opaque ''x''\<rparr>,
                   \<lparr>seq = 2, ts = 11, type = ''b'', payload = Opaque ''y''\<rparr>,
                   \<lparr>seq = 3, ts = 12, type = ''c'', payload = Opaque ''z''\<rparr>],
         bufferSize = 500\<rparr> True no_opts
       = Inr [\<lparr>seq = 1, ts = 10, type = ''a'', payload = Opaque ''x''\<rparr>,
             \<lparr>seq = 2, ts = 11, type = ''b'', payload = Opaque ''y''\<rparr>,
             \<lparr>seq = 3, ts = 12, type = ''c'', payload = Opaque ''z''\<rparr>]"
  (is "?C \<and> ?A \<and> ?M \<and> ?L \<and> ?R")
proof -
  have c: ?C
    by (simp add: createEventLog_def recoverState_def DEFAULT_BUFFER_SIZE_def)
  have a: ?A
    by (simp add: append_def appendFile_def Let_def)
  have acc: "\<forall>ev \<in> set [(True, 10::int, ''a'', Opaque ''x''), (True, 11, ''b'', Opaque ''y''),
                            (True, 12, ''c'', Opaque ''z'')]. fst ev" by simp
  from append_fresh_seq[OF disjI1[OF refl] acc, of None] obtain lg0 entries lg where
    w: "createEventLog None True None = Inr lg0"
       "append_all lg0 [(True, 10::int, ''a'', Opaque ''x''), (True, 11, ''b'', Opaque ''y''),
                            (True, 12, ''c'', Opaque ''z'')] = (Inr entries, lg)"
       "map seq entries = [1 .. int (length [(True, 10::int, ''a'', Opaque ''x''), (True, 11, ''b'', Opaque ''y''),
                            (True, 12, ''c'', Opaque ''z'')])]"
       "lastSeq lg = int (length [(True, 10::int, ''a'', Opaque ''x''), (True, 11, ''b'', Opaque ''y''),
                            (True, 12, ''c'', Opaque ''z'')])"
       "read_log lg True no_opts = Inr entries"
    by blast
  from w(1) c have l0: "lg0 = \<lparr>log_file = None, seq_counter = 0, buffer = [], bufferSize = 500\<rparr>" by simp
  from w(2) a l0 have e: "entries = [\<lparr>seq = 1, ts = 10, type = ''a'', payload = Opaque ''x''\<rparr>,
             \<lparr>seq = 2, ts = 11, type = ''b'', payload = Opaque ''y''\<rparr>,
             \<lparr>seq = 3, ts = 12, type = ''c'', payload = Opaque ''z''\<rparr>]"
    and l: "lg = \<lparr>log_file = Some [Json \<lparr>seq = 1, ts = 10, type = ''a'', payload = Opaque ''x''\<rparr>,
                          Json \<lparr>seq = 2, ts = 11, type = ''b'', payload = Opaque ''y''\<rparr>,
                          Json \<lparr>seq = 3, ts = 12, type = ''c'', payload = Opaque ''z''\<rparr>],
         seq_counter = 3,
         buffer = [\<lparr>seq = 1, ts = 10, type = ''a'', payload = Opaque ''x''\<rparr>,
                   \<lparr>seq = 2, ts = 11, type = ''b'', payload = Opaque ''y''\<rparr>,
                   \<lparr>seq = 3, ts = 12, type = ''c'', payload = Opaque ''z''\<rparr>],
         bufferSize = 500\<rparr>" by simp_all
  from w(3) e have m: ?M by (simp only:)
  from w(4) l have ls: ?L by simp
  from w(5) e l have r: ?R by (simp only:)
  from c a m ls r show ?thesis by (intro conjI)
qed

section \<open>Event log: recovery\<close>

lemma js_slice_tail: "0 < b \<Longrightarrow> js_slice xs (- b) = drop (length xs - nat b) xs"
  by (auto simp: js_slice_def Let_def max_def nat_diff_distrib' intro: arg_cong[where f="\<lambda>k. drop k xs"])

lemma blank_raw_parse: "blank_raw ls \<Longrightarrow> parse_lines ls = []"
  by (induction ls) (auto simp: blank_raw_def)

lemma recover_positive_bufferSize:
  assumes "0 < b" and "createEventLog d True (Some b) = Inr lg"
  shows "seq_counter lg = (if parse_lines (disk_lines d) = [] then 0
                           else seq (last (parse_lines (disk_lines d))))
       \<and> buffer lg = drop (length (parse_lines (disk_lines d)) - nat b) (parse_lines (disk_lines d))
       \<and> log_file lg = d \<and> bufferSize lg = b"
proof (cases d)
  case None
  with assms show ?thesis
    by (auto simp: createEventLog_def recoverState_def disk_lines_def)
next
  case (Some ls)
  with assms show ?thesis
    by (auto simp: createEventLog_def recoverState_def disk_lines_def Let_def
        blank_raw_parse js_slice_tail split: if_splits)
qed

lemma append_zero_bufferSize:
  "buffer (snd (append \<lparr>log_file = d, seq_counter = s, buffer = buf, bufferSize = 0\<rparr>
                  True now ty p)) = []"
  by (simp add: append_def Let_def js_slice_def)

lemma reopen_recent:
  assumes created: "createEventLog None True b0 = Inr lg0"
    and appended: "append_all lg0 evs = (Inr entries, lg)"
    and b: "0 < b"
    and reopened: "createEventLog (log_file (close_log lg)) True (Some b) = Inr lg2"
  shows "recent lg2 no_opts = drop (length entries - nat b) entries
       \<and> map seq (recent lg2 no_opts) = drop (length evs - nat b) [1 .. int (length evs)]
       \<and> lastSeq lg2 = int (length evs)
       \<and> (\<forall>now ty p e lg3. append lg2 True now ty p = (Inr e, lg3) \<longrightarrow> seq e = int (length evs) + 1)"
proof -
  from created have lg0: "seq_counter lg0 = 0" "log_file lg0 = None"
    by (auto simp: createEventLog_def recoverState_def)
  note s = append_all_seq[OF appended]
  have pl: "parse_lines (disk_lines (log_file lg)) = entries"
  proof (cases "evs = []")
    case True
    with s lg0 show ?thesis by (simp add: disk_lines_def)
  next
    case False
    with s lg0 show ?thesis by (simp add: disk_lines_def parse_lines_Json)
  qed
  have seqs: "map seq entries = [1 .. int (length evs)]" using s lg0 by simp
  have pos: "\<forall>e \<in> set entries. 0 < seq e"
  proof
    fix e assume "e \<in> set entries"
    then have "seq e \<in> set (map seq entries)" by simp
    with seqs show "0 < seq e" by simp
  qed
  from reopened have r: "createEventLog (log_file lg) True (Some b) = Inr lg2"
    by (simp add: close_log_def)
  note rp = recover_positive_bufferSize[OF b r, unfolded pl]
  have pos': "\<forall>e \<in> set (drop (length entries - nat b) entries). 0 < seq e"
    using pos by (meson in_set_dropD)
  have rec: "recent lg2 no_opts = drop (length entries - nat b) entries"
    using rp pos' by (simp add: recent_def no_opts_def collect_all filter_id_conv)
  have ms: "map seq (recent lg2 no_opts) = drop (length evs - nat b) [1 .. int (length evs)]"
    using rec seqs s by (simp add: drop_map[symmetric])
  have ls: "lastSeq lg2 = int (length evs)"
  proof (cases "entries = []")
    case True
    with rp s show ?thesis by (simp add: lastSeq_def)
  next
    case False
    then have "seq (last entries) = last (map seq entries)" by (simp add: last_map)
    also have "\<dots> = int (length evs)" using seqs False s
      by (cases evs rule: rev_cases) (auto simp: upto_rec2)
    finally show ?thesis using rp False by (simp add: lastSeq_def)
  qed
  have nx: "\<forall>now ty p e lg3. append lg2 True now ty p = (Inr e, lg3) \<longrightarrow> seq e = int (length evs) + 1"
    using ls append_ok_seq by (fastforce simp: lastSeq_def)
  from rec ms ls nx show ?thesis by blast
qed


lemma reopen_after_seven:
  "\<exists>lg0 entries lg lg2.
      createEventLog None True (Some 3) = Inr lg0 \<and>
      append_all lg0 seven = (Inr entries, lg) \<and>
      createEventLog (log_file (close_log lg)) True (Some 3) = Inr lg2 \<and>
      recent lg2 no_opts = drop 4 entries \<and>
      map seq (recent lg2 no_opts) = [5, 6, 7] \<and>
      (\<forall>now ty p e lg3. append lg2 True now ty p = (Inr e, lg3) \<longrightarrow> seq e = 8)"
proof -
  obtain lg0 where c: "createEventLog None True (Some 3) = Inr lg0"
    by (simp add: createEventLog_def recoverState_def)
  have len: "length seven = 7" by (simp add: seven_def)
  have "\<forall>ev \<in> set seven. fst ev" by (auto simp: seven_def)
  from append_all_succeeds[OF this, of lg0] obtain entries lg
    where a: "append_all lg0 seven = (Inr entries, lg)" by blast
  obtain lg2 where r: "createEventLog (log_file (close_log lg)) True (Some 3) = Inr lg2"
    by (cases "createEventLog (log_file (close_log lg)) True (Some 3)")
       (auto simp: createEventLog_def recoverState_def Let_def split: option.splits if_splits)
  have l7: "length entries = 7" using append_all_seq[OF a] len by simp
  have d: "drop 4 [1 .. (7::int)] = [5, 6, 7]" by (simp add: upto_rec1)
  have rr: "recent lg2 no_opts = drop (length entries - nat 3) entries
       \<and> map seq (recent lg2 no_opts) = drop (length seven - nat 3) [1 .. int (length seven)]
       \<and> lastSeq lg2 = int (length seven)
       \<and> (\<forall>now ty p e lg3. append lg2 True now ty p = (Inr e, lg3) \<longrightarrow> seq e = int (length seven) + 1)"
    by (rule reopen_recent[OF c a _ r]) simp
  have r1: "recent lg2 no_opts = drop 4 entries"
    using rr[THEN conjunct1] l7 by simp
  have r2: "map seq (recent lg2 no_opts) = [5, 6, 7]"
    using rr[THEN conjunct2, THEN conjunct1] len d by simp
  have r3: "\<forall>now ty p e lg3. append lg2 True now ty p = (Inr e, lg3) \<longrightarrow> seq e = 8"
    using rr[THEN conjunct2, THEN conjunct2, THEN conjunct2] len by simp
  show ?thesis
    apply (rule exI[of _ lg0], rule exI[of _ entries], rule exI[of _ lg], rule exI[of _ lg2])
    apply (intro conjI)
         apply (rule c)
        apply (rule a)
       apply (rule r)
      apply (rule r1)
     apply (rule r2)
    apply (rule r3)
    done
qed

text \<open>
  Claim C2. Constructing the log over an existing file restores the counter to the
  \<open>seq\<close> of the last well-formed line and loads the last \<open>bufferSize\<close> entries into
  the buffer. For a positive \<open>bufferSize\<close> the code does so
  (\<open>recover_positive_bufferSize\<close>, and \<open>reopen_after_seven\<close> for the run of seven appends
  reopened with \<open>bufferSize = 3\<close>). With \<open>bufferSize = 0\<close>, \<^verbatim>\<open>entries.slice(-bufferSize)\<close>
  is \<^verbatim>\<open>entries.slice(0)\<close>: recovery loads every entry of the file, not the last zero,
  while \<open>append\<close> under the same \<open>bufferSize\<close> leaves the buffer empty
  (\<open>append_zero_bufferSize\<close>).
\<close>

theorem recover_zero_bufferSize:
  "createEventLog
      (Some [Json \<lparr>seq = 1, ts = 10, type = ''a'', payload = Opaque ''x''\<rparr>,
             Json \<lparr>seq = 2, ts = 11, type = ''b'', payload = Opaque ''y''\<rparr>]) True (Some 0)
    = Inr \<lparr>log_file = Some [Json \<lparr>seq = 1, ts = 10, type = ''a'', payload = Opaque ''x''\<rparr>,
                              Json \<lparr>seq = 2, ts = 11, type = ''b'', payload = Opaque ''y''\<rparr>],
            seq_counter = 2,
            buffer = [\<lparr>seq = 1, ts = 10, type = ''a'', payload = Opaque ''x''\<rparr>,
                      \<lparr>seq = 2, ts = 11, type = ''b'', payload = Opaque ''y''\<rparr>],
            bufferSize = 0\<rparr>"
  by (simp add: createEventLog_def recoverState_def js_slice_def blank_raw_def)

section \<open>Cron engine: firing and backoff\<close>

lemma errorBackoffMs_cases:
  "errorBackoffMs n = (if n \<le> 1 then 30000 else if n = 2 then 60000 else if n = 3 then 300000
                       else if n = 4 then 900000 else 3600000)"
proof -
  consider "n \<le> 1" | "n = 2" | "n = 3" | "n = 4" | "5 \<le> n" by arith
  then show ?thesis
  proof cases
    case 1
    then have "nat (max 0 (min (n - 1) 4)) = 0" by simp
    with 1 show ?thesis by (simp add: errorBackoffMs_def ERROR_BACKOFF_MS_def)
  next
    case 5
    then have "nat (max 0 (min (n - 1) 4)) = 4" by simp
    with 5 show ?thesis by (simp add: errorBackoffMs_def ERROR_BACKOFF_MS_def)
  qed (simp_all add: errorBackoffMs_def ERROR_BACKOFF_MS_def)
qed

lemma errorBackoffMs_mono: "a \<le> b \<Longrightarrow> errorBackoffMs a \<le> errorBackoffMs b"
  by (simp add: errorBackoffMs_cases)

lemma fireJob_next_run:
  assumes "fireJob h write_ok ts_now currentMs job lg = (job', lg')"
  shows "nextRunAtMs (state job') =
           (case schedule job of At _ \<Rightarrow> None
            | _ \<Rightarrow> if consecutiveErrors (state job') > 0
                   then Some (currentMs + errorBackoffMs (consecutiveErrors (state job')))
                   else computeNextRun h (schedule job) currentMs)"
    and "schedule job' = schedule job"
    and "consecutiveErrors (state job') = (if write_ok then 0 else consecutiveErrors (state job) + 1)"
  using assms
  by (auto simp: fireJob_def append_def Let_def split: CronSchedule.splits prod.splits sum.splits if_splits)

text \<open>
  Claim C4. When a fire of a job that is not one-shot leaves \<open>consecutiveErrors > 0\<close>, the
  next run is the fire time plus the backoff entry for the error count, whatever the
  job's schedule would resolve to: 30 s, 60 s, 5 min, 15 min, 1 h for one to five errors
  and 1 h for every higher count. The delays are non-decreasing in the error count and
  never exceed the last entry of the table.
\<close>

theorem fire_error_backoff:
  assumes fired: "fireJob h write_ok ts_now currentMs job lg = (job', lg')"
    and repeating: "\<forall>a. schedule job \<noteq> At a"
    and failing: "consecutiveErrors (state job') > 0"
  shows "nextRunAtMs (state job') = Some (currentMs + errorBackoffMs (consecutiveErrors (state job')))
       \<and> errorBackoffMs 1 = 30000 \<and> errorBackoffMs 2 = 60000 \<and> errorBackoffMs 3 = 300000
       \<and> errorBackoffMs 4 = 900000 \<and> errorBackoffMs 5 = 3600000
       \<and> (\<forall>n \<ge> 5. errorBackoffMs n = 3600000)
       \<and> (\<forall>a b. a \<le> b \<longrightarrow> errorBackoffMs a \<le> errorBackoffMs b)
       \<and> (\<forall>n. errorBackoffMs n \<le> last ERROR_BACKOFF_MS)"
proof -
  from fireJob_next_run(1)[OF fired] repeating failing
  have "nextRunAtMs (state job') = Some (currentMs + errorBackoffMs (consecutiveErrors (state job')))"
    by (cases "schedule job") auto
  moreover have "\<forall>n. errorBackoffMs n \<le> last ERROR_BACKOFF_MS"
    by (simp add: errorBackoffMs_cases ERROR_BACKOFF_MS_def)
  ultimately show ?thesis
    using errorBackoffMs_mono by (simp add: errorBackoffMs_cases)
qed

theorem fire_error_backoff_witness:
  "(\<forall>a. schedule sample_job \<noteq> At a)
   \<and> consecutiveErrors (state (fst (fireJob sample_host False 7 1000 sample_job sample_log))) = 1
   \<and> nextRunAtMs (state (fst (fireJob sample_host False 7 1000 sample_job sample_log))) = Some 31000"
proof -
  have f: "fireJob sample_host False 7 1000 sample_job sample_log
             = (fst (fireJob sample_host False 7 1000 sample_job sample_log),
                snd (fireJob sample_host False 7 1000 sample_job sample_log))" by simp
  have r: "\<forall>a. schedule sample_job \<noteq> At a" by (simp add: sample_job_def)
  have e: "consecutiveErrors (state (fst (fireJob sample_host False 7 1000 sample_job sample_log))) = 1"
    by (simp add: fireJob_def append_def sample_job_def sample_log_def Let_def)
  from fire_error_backoff[OF f r] e r show ?thesis by simp
qed

section \<open>Cron engine: unknown job ids\<close>

lemma findIndex_None_iff: "findIndex i js = None \<longleftrightarrow> i \<notin> job_id ` set js"
  by (induction js) auto

lemma findIndex_Some_less: "findIndex i js = Some k \<Longrightarrow> k < length js \<and> job_id (js ! k) = i"
  by (induction js arbitrary: k) (auto split: if_splits)

text \<open>
  Claim C9. For an id that no job of the scheduler carries, \<open>update\<close>, \<open>remove\<close> and
  \<open>runNow\<close> each fail with the error whose message is \<^verbatim>\<open>cron job not found: \<close> followed by
  the id, and the engine (its jobs with their definitions and states, the store, the
  timer and the event log) is left as it was.
\<close>

theorem unknown_id_not_found:
  assumes "i \<notin> job_id ` set (jobs eng)"
  shows "update h save_ok now now_arm i patch eng = (Inl (NotFound (''cron job not found: '' @ i)), eng)
       \<and> remove save_ok i eng = (Inl (NotFound (''cron job not found: '' @ i)), eng)
       \<and> runNow h write_ok save_ok ts_now now i eng
            = (Inl (NotFound (''cron job not found: '' @ i)), eng)"
  using assms findIndex_None_iff[of i "jobs eng"]
  by (simp add: update_def remove_def runNow_def not_found_def)

theorem unknown_id_not_found_witness:
  "''zzzz'' \<notin> job_id ` set (jobs sample_engine)
   \<and> update sample_host True 5 6 ''zzzz'' \<lparr>p_name = Some ''n'', p_schedule = None, p_payload = None, p_enabled = Some False\<rparr> sample_engine
        = (Inl (NotFound ''cron job not found: zzzz''), sample_engine)
   \<and> remove True ''zzzz'' sample_engine = (Inl (NotFound ''cron job not found: zzzz''), sample_engine)
   \<and> runNow sample_host True True 5 6 ''zzzz'' sample_engine
        = (Inl (NotFound ''cron job not found: zzzz''), sample_engine)"
proof -
  have h: "''zzzz'' \<notin> job_id ` set (jobs sample_engine)"
    by (simp add: sample_engine_def sample_job_def)
  from unknown_id_not_found[OF h] h show ?thesis by simp
qed

section \<open>Heartbeat: active hours\<close>

lemma colon_not_digit: "\<not> is_digit CHR '':''"
  by (simp add: is_digit_def digit_val_def)

lemma digit_val_le: "digit_val c = Some d \<Longrightarrow> d \<le> 9"
  by (auto simp: digit_val_def split: if_splits)

lemma one_digit_le: "is_digit c \<Longrightarrow> nat_of_digits [c] \<le> 9"
  by (auto simp: is_digit_def nat_of_digits_def dest: digit_val_le)

lemma valid_hhmm_parses: "valid_hhmm s \<Longrightarrow> parseHHMM s \<noteq> None"
  by (erule valid_hhmm.elims) (auto simp: parseHHMM_def Let_def colon_not_digit dest: one_digit_le)

lemma parses_valid_hhmm:
  assumes "parseHHMM s \<noteq> None"
  shows "valid_hhmm s"
proof -
  define hs where "hs = takeWhile is_digit s"
  define r where "r = dropWhile is_digit s"
  have s: "s = hs @ r" by (simp add: hs_def r_def)
  have dig: "\<forall>c \<in> set hs. is_digit c" unfolding hs_def by (auto dest: set_takeWhileD)
  from assms have c: "length hs = 1 \<or> length hs = 2" "r \<noteq> []" "hd r = CHR '':''"
    "length (tl r) = 2" "list_all is_digit (tl r)"
    "nat_of_digits hs \<le> 23" "nat_of_digits (tl r) \<le> 59"
    unfolding parseHHMM_def hs_def r_def Let_def by (auto split: if_splits)
  from c(2,3) obtain ms where r: "r = CHR '':'' # ms" by (cases r) auto
  with c(4) obtain m1 m2 where ms: "ms = [m1, m2]"
    by (cases ms; cases "tl ms"; cases "tl (tl ms)") auto
  from c(5) r ms have md: "is_digit m1" "is_digit m2" by auto
  from c(1) show ?thesis
  proof
    assume "length hs = 1"
    then obtain h1 where hs: "hs = [h1]" by (cases hs) auto
    with s r ms dig md c(7) show ?thesis by simp
  next
    assume "length hs = 2"
    then obtain h1 h2 where hs: "hs = [h1, h2]" by (cases hs; cases "tl hs") auto
    with s r ms dig md c(6,7) show ?thesis by simp
  qed
qed

lemma parseHHMM_None_iff: "parseHHMM s = None \<longleftrightarrow> \<not> valid_hhmm s"
  using valid_hhmm_parses parses_valid_hhmm by blast

text \<open>
  Claim C10. When the start or the end of a configured active-hours window is not a valid
  \<^verbatim>\<open>HH:MM\<close> time, \<open>isWithinActiveHours\<close> is true at every instant and in every time zone:
  a malformed window switches the gate off. \<open>parseHHMM\<close> rejects exactly the strings that
  are not valid (\<open>parseHHMM_None_iff\<close>).
\<close>

theorem malformed_window_always_active:
  assumes "\<not> valid_hhmm (ah_start w) \<or> \<not> valid_hhmm (ah_end w)"
  shows "isWithinActiveHours cm (Some w) nowMs"
  using assms
  by (auto simp: isWithinActiveHours_def parseHHMM_None_iff[symmetric] split: option.splits)

theorem malformed_window_always_active_witness:
  "\<not> valid_hhmm (ah_start \<lparr>ah_start = ''invalid'', ah_end = ''22:00'', timezone = ''local''\<rparr>)
   \<and> isWithinActiveHours (\<lambda>tz t. 180) (Some \<lparr>ah_start = ''invalid'', ah_end = ''22:00'', timezone = ''local''\<rparr>) (Some 0)
   \<and> \<not> isWithinActiveHours (\<lambda>tz t. 180) (Some \<lparr>ah_start = ''09:00'', ah_end = ''22:00'', timezone = ''local''\<rparr>) (Some 0)"
proof -
  have h: "\<not> valid_hhmm (ah_start \<lparr>ah_start = ''invalid'', ah_end = ''22:00'', timezone = ''local''\<rparr>)"
    by simp
  have n: "\<not> isWithinActiveHours (\<lambda>tz t. 180) (Some \<lparr>ah_start = ''09:00'', ah_end = ''22:00'', timezone = ''local''\<rparr>) (Some 0)"
    by (simp add: isWithinActiveHours_def parseHHMM_def is_digit_def digit_val_def nat_of_digits_def Let_def)
  from malformed_window_always_active[OF disjI1, OF h] h n show ?thesis by simp
qed

section \<open>Heartbeat: the response parser\<close>

lemma upper_space: "is_space c \<Longrightarrow> upper c = c"
  unfolding is_space_def by (elim disjE; simp add: upper_def)

lemma dropWhile_spaces:
  "list_all is_space ws \<Longrightarrow> (x = [] \<or> \<not> is_space (hd x)) \<Longrightarrow> dropWhile is_space (ws @ x) = x"
  by (induction ws) (auto simp: dropWhile_eq_self_iff)

lemma ci_prefix_append:
  "map upper kw = map upper k \<Longrightarrow> ci_prefix k (kw @ r) = Some r"
proof (induction k arbitrary: kw)
  case Nil
  then show ?case by simp
next
  case (Cons a k)
  then obtain b kw' where "kw = b # kw'" by (cases kw) auto
  with Cons show ?case by simp
qed

lemma ci_prefix_SomeD:
  "ci_prefix k x = Some r \<Longrightarrow> \<exists>kw. x = kw @ r \<and> map upper kw = map upper k"
proof (induction k x rule: ci_prefix.induct)
  case (1 s)
  then show ?case by simp
next
  case (2 k ks)
  then show ?case by simp
next
  case (3 k ks c cs)
  then have u: "upper c = upper k" and "ci_prefix ks cs = Some r" by (auto split: if_splits)
  with 3 obtain kw where "cs = kw @ r" "map upper kw = map upper ks" by blast
  with u have "c # cs = (c # kw) @ r \<and> map upper (c # kw) = map upper (k # ks)" by simp
  then show ?case by blast
qed

lemma at_line_end_append:
  "list_all is_space ws \<Longrightarrow> (post = [] \<or> is_line_terminator (hd post)) \<Longrightarrow> at_line_end (ws @ post)"
proof (induction ws)
  case Nil
  then show ?case by (cases post) (auto simp: at_line_end_def Let_def)
next
  case (Cons c ws)
  then show ?case by (auto simp: at_line_end_def Let_def)
qed

lemma at_line_endD:
  assumes "at_line_end s"
  shows "\<exists>ws post. s = ws @ post \<and> list_all is_space ws \<and> (post = [] \<or> is_line_terminator (hd post))"
proof -
  let ?P = "\<lambda>c. is_space c \<and> \<not> is_line_terminator c"
  have "s = takeWhile ?P s @ dropWhile ?P s" by simp
  moreover have "list_all is_space (takeWhile ?P s)"
    by (auto simp: list_all_iff dest: set_takeWhileD)
  moreover from assms have "dropWhile ?P s = [] \<or> is_line_terminator (hd (dropWhile ?P s))"
    by (simp add: at_line_end_def Let_def)
  ultimately show ?thesis by blast
qed

lemma scan_lines_found:
  "f rest \<noteq> None \<Longrightarrow> (pre = [] \<and> bol) \<or> (pre \<noteq> [] \<and> is_line_terminator (last pre))
     \<Longrightarrow> scan_lines f bol (pre @ rest) \<noteq> None"
proof (induction pre arbitrary: bol)
  case Nil
  then show ?case by (cases rest) auto
next
  case (Cons c pre)
  show ?case
  proof (cases pre)
    case Nil
    with Cons.prems have "is_line_terminator c" by simp
    with Cons.IH[of "is_line_terminator c"] Cons.prems(1) Nil show ?thesis
      by (auto split: option.splits)
  next
    case (Cons d pre')
    with Cons.prems Cons.IH[of "is_line_terminator c"] show ?thesis
      by (auto split: option.splits)
  qed
qed

lemma scan_lines_SomeD:
  "scan_lines f bol s = Some r \<Longrightarrow>
     \<exists>pre rest. s = pre @ rest \<and> f rest = Some r
        \<and> ((pre = [] \<and> bol) \<or> (pre \<noteq> [] \<and> is_line_terminator (last pre)))"
proof (induction s arbitrary: bol)
  case Nil
  then show ?case by (auto split: if_splits)
next
  case (Cons c cs)
  show ?case
  proof (cases "bol \<and> f (c # cs) = Some r")
    case True
    then have "c # cs = [] @ (c # cs) \<and> f (c # cs) = Some r \<and> bol" by simp
    then show ?thesis by blast
  next
    case False
    with Cons.prems have "scan_lines f (is_line_terminator c) cs = Some r"
      by (auto split: if_splits option.splits)
    from Cons.IH[OF this] obtain pre rest where p: "cs = pre @ rest" "f rest = Some r"
      "(pre = [] \<and> is_line_terminator c) \<or> (pre \<noteq> [] \<and> is_line_terminator (last pre))" by blast
    then have "c # cs = (c # pre) @ rest \<and> f rest = Some r
        \<and> (c # pre \<noteq> [] \<and> is_line_terminator (last (c # pre)))" by auto
    then show ?thesis by blast
  qed
qed

lemma not_space_first:
  "map upper w = t \<Longrightarrow> t \<noteq> [] \<Longrightarrow> \<not> is_space (hd t) \<Longrightarrow> w \<noteq> [] \<and> \<not> is_space (hd w)"
  by (cases w) (auto simp: upper_space)

lemma first_some_SomeD: "first_some f xs = Some y \<Longrightarrow> \<exists>x \<in> set xs. f x = Some y"
  by (induction xs) (auto split: option.splits)

lemma first_some_found: "x \<in> set xs \<Longrightarrow> f x \<noteq> None \<Longrightarrow> first_some f xs \<noteq> None"
  by (induction xs) (auto split: option.splits)

lemma pat_at_found:
  assumes K: "map upper K = K" "K \<noteq> []" "\<not> is_space (hd K)"
    and T: "(T, st) \<in> set toks" "map upper T = T" "T \<noteq> []" "\<not> is_space (hd T)"
    and tok: "map upper tok = T"
    and ws: "list_all is_space ws1" "list_all is_space ws2" "list_all is_space ws3"
    and kw: "map upper kw = K"
    and post: "post = [] \<or> is_line_terminator (hd post)"
  shows "pat_at K toks (ws1 @ kw @ ws2 @ tok @ ws3 @ post) \<noteq> None"
proof -
  from not_space_first[OF kw K(2,3)] have kw1: "kw \<noteq> []" "\<not> is_space (hd kw)" by auto
  from not_space_first[OF tok T(3,4)] have tok1: "tok \<noteq> []" "\<not> is_space (hd tok)" by auto
  have d1: "dropWhile is_space (ws1 @ kw @ ws2 @ tok @ ws3 @ post) = kw @ ws2 @ tok @ ws3 @ post"
    using dropWhile_spaces[OF ws(1), of "kw @ ws2 @ tok @ ws3 @ post"] kw1 by simp
  have p1: "ci_prefix K (kw @ ws2 @ tok @ ws3 @ post) = Some (ws2 @ tok @ ws3 @ post)"
    using kw K(1) by (intro ci_prefix_append) simp
  have d2: "dropWhile is_space (ws2 @ tok @ ws3 @ post) = tok @ ws3 @ post"
    using dropWhile_spaces[OF ws(2), of "tok @ ws3 @ post"] tok1 by simp
  have p2: "ci_prefix T (tok @ ws3 @ post) = Some (ws3 @ post)"
    using tok T(2) by (intro ci_prefix_append) simp
  have e: "at_line_end (ws3 @ post)" using at_line_end_append[OF ws(3) post] .
  let ?f = "\<lambda>(tk, st). case ci_prefix tk (dropWhile is_space (ws2 @ tok @ ws3 @ post)) of
                None \<Rightarrow> None | Some rest \<Rightarrow> if at_line_end rest then Some st else None"
  have "?f (T, st) \<noteq> None" using d2 p2 e by simp
  then have "first_some ?f toks \<noteq> None"
    by (rule first_some_found[where f = ?f, OF T(1)])
  with d1 p1 show ?thesis
    by (simp add: pat_at_def)
qed


lemma pat_atD:
  assumes K: "map upper K = K"
    and toks: "\<forall>(T, st) \<in> set toks. map upper T = T \<and> W T"
    and m: "pat_at K toks s = Some st"
  shows "\<exists>ws1 kw ws2 tok ws3 post. s = ws1 @ kw @ ws2 @ tok @ ws3 @ post
        \<and> list_all is_space ws1 \<and> map upper kw = K
        \<and> list_all is_space ws2 \<and> W (map upper tok)
        \<and> list_all is_space ws3
        \<and> (post = [] \<or> is_line_terminator (hd post))"
proof -
  have sp: "\<And>x. list_all is_space (takeWhile is_space x)"
    by (auto simp: list_all_iff dest: set_takeWhileD)
  have s1: "s = takeWhile is_space s @ dropWhile is_space s" by simp
  from m obtain r where r: "ci_prefix K (dropWhile is_space s) = Some r"
    and fs: "first_some (\<lambda>(tk, st). case ci_prefix tk (dropWhile is_space r) of
                None \<Rightarrow> None | Some rest \<Rightarrow> if at_line_end rest then Some st else None)
              toks = Some st"
    by (auto simp: pat_at_def split: option.splits)
  from ci_prefix_SomeD[OF r] K obtain kw where kw: "dropWhile is_space s = kw @ r"
    "map upper kw = K" by auto
  from first_some_SomeD[OF fs] obtain T st' where T: "(T, st') \<in> set toks"
    and mm: "(case ci_prefix T (dropWhile is_space r) of
                None \<Rightarrow> None | Some rest \<Rightarrow> if at_line_end rest then Some st' else None) = Some st"
    by auto
  from mm obtain rest where rest: "ci_prefix T (dropWhile is_space r) = Some rest" "at_line_end rest"
    by (auto split: option.splits if_splits)
  from ci_prefix_SomeD[OF rest(1)] obtain tok where tok: "dropWhile is_space r = tok @ rest"
    "map upper tok = map upper T" by auto
  from toks T have TT: "map upper T = T" "W T" by auto
  with tok(2) have tk: "W (map upper tok)" by simp
  from at_line_endD[OF rest(2)] obtain ws3 post where e: "rest = ws3 @ post"
    "list_all is_space ws3" "post = [] \<or> is_line_terminator (hd post)" by blast
  have r1: "r = takeWhile is_space r @ dropWhile is_space r" by simp
  have eq: "s = takeWhile is_space s @ kw @ takeWhile is_space r @ tok @ ws3 @ post"
    using s1 kw(1) r1 tok(1) e(1) by (metis append.assoc)
  with sp[of s] sp[of r] kw(2) tk e(2,3) show ?thesis by blast
qed

lemma pat_scan_iff:
  assumes K: "map upper K = K" "K \<noteq> []" "\<not> is_space (hd K)"
    and toks: "\<forall>(T, st) \<in> set toks. map upper T = T \<and> T \<noteq> [] \<and> \<not> is_space (hd T) \<and> W T"
    and W: "\<forall>T. W T \<longrightarrow> (\<exists>st. (T, st) \<in> set toks)"
  shows "scan_lines (pat_at K toks) True s \<noteq> None \<longleftrightarrow> has_pat K W s"
proof
  assume "scan_lines (pat_at K toks) True s \<noteq> None"
  then obtain st where "scan_lines (pat_at K toks) True s = Some st" by auto
  from scan_lines_SomeD[OF this] obtain pre rest where p: "s = pre @ rest"
    "pat_at K toks rest = Some st" "pre = [] \<or> is_line_terminator (last pre)" by auto
  from toks have "\<forall>(T, st) \<in> set toks. map upper T = T \<and> W T" by auto
  from pat_atD[OF K(1) this p(2)] obtain ws1 kw ws2 tok ws3 post where
    d: "rest = ws1 @ kw @ ws2 @ tok @ ws3 @ post"
       "list_all is_space ws1" "map upper kw = K" "list_all is_space ws2"
       "W (map upper tok)"
       "list_all is_space ws3" "post = [] \<or> is_line_terminator (hd post)" by blast
  from p(1,3) d show "has_pat K W s" unfolding has_pat_def by blast
next
  assume "has_pat K W s"
  then obtain pre ws1 kw ws2 tok ws3 post where
    d: "s = pre @ ws1 @ kw @ ws2 @ tok @ ws3 @ post"
       "pre = [] \<or> is_line_terminator (last pre)"
       "list_all is_space ws1" "map upper kw = K" "list_all is_space ws2"
       "W (map upper tok)"
       "list_all is_space ws3" "post = [] \<or> is_line_terminator (hd post)"
    unfolding has_pat_def by blast
  from W d(6) obtain st where T: "(map upper tok, st) \<in> set toks" by blast
  with toks have TT: "map upper (map upper tok) = map upper tok" "map upper tok \<noteq> []"
    "\<not> is_space (hd (map upper tok))" by auto
  from pat_at_found[OF K T TT refl d(3) d(5) d(7) d(4) d(8)]
  have "pat_at K toks (ws1 @ kw @ ws2 @ tok @ ws3 @ post) \<noteq> None" .
  from scan_lines_found[where f = "pat_at K toks" and rest = "ws1 @ kw @ ws2 @ tok @ ws3 @ post"
        and pre = pre and bol = True, OF this] d(1,2)
  show "scan_lines (pat_at K toks) True s \<noteq> None" by auto
qed

lemma status_at_pat: "status_at = pat_at ''STATUS:'' status_tokens"
  by (rule ext) (simp only: status_at_def pat_at_def)

lemma has_status_pat: "has_status s = has_pat ''STATUS:'' status_word s"
  by (simp only: has_status_def has_pat_def)

lemma keyword_upper:
  "map upper ''STATUS:'' = ''STATUS:''" "''STATUS:'' \<noteq> []" "\<not> is_space (hd ''STATUS:'')"
  by (simp_all add: upper_def is_space_def)

lemma tokens_upper:
  "\<forall>(T, st) \<in> set status_tokens. map upper T = T \<and> T \<noteq> [] \<and> \<not> is_space (hd T) \<and> status_word T"
  by (simp add: status_tokens_def upper_def is_space_def status_word_def)

lemma tokens_listed: "\<forall>T. status_word T \<longrightarrow> (\<exists>st. (T, st) \<in> set status_tokens)"
  unfolding status_word_def status_tokens_def
  by (intro allI impI, elim disjE) simp_all

lemma status_scan_iff: "scan_lines status_at True s \<noteq> None \<longleftrightarrow> has_status s"
  unfolding status_at_pat has_status_pat
  by (rule pat_scan_iff[OF keyword_upper tokens_upper tokens_listed])

lemma scan_None_no_status: "scan_lines status_at True s = None \<Longrightarrow> \<not> has_status s"
  using status_scan_iff[of s] by simp

lemma terminator_space: "is_line_terminator c \<Longrightarrow> is_space c"
  by (auto simp: is_line_terminator_def is_space_def)

lemma no_break_upper:
  assumes "no_break K" and "map upper w = K"
  shows "no_break w"
proof -
  have "\<not> is_line_terminator c" if c: "c \<in> set w" for c
  proof
    assume t: "is_line_terminator c"
    then have "upper c = c" by (simp add: terminator_space upper_space)
    with c have "c \<in> set (map upper w)" by force
    with assms t show False by (simp add: no_break_def list_all_iff)
  qed
  then show ?thesis by (simp add: no_break_def list_all_iff)
qed

lemma no_break_append [simp]: "no_break (a @ b) \<longleftrightarrow> no_break a \<and> no_break b"
  by (simp add: no_break_def)

text \<open>White space parted at its last, or at its first, line break.\<close>

lemma part_at_last_break:
  "\<exists>a b. ws = a @ b \<and> (a = [] \<or> is_line_terminator (last a)) \<and> no_break b"
proof -
  let ?P = "\<lambda>c. \<not> is_line_terminator c"
  let ?a = "rev (dropWhile ?P (rev ws))" and ?b = "rev (takeWhile ?P (rev ws))"
  have 1: "ws = ?a @ ?b"
    using takeWhile_dropWhile_id[of ?P "rev ws"] by (metis rev_append rev_rev_ident)
  have 2: "?a = [] \<or> is_line_terminator (last ?a)"
  proof (cases "dropWhile ?P (rev ws)")
    case Nil then show ?thesis by simp
  next
    case (Cons x xs)
    then have "\<not> ?P x" using hd_dropWhile[of ?P "rev ws"] by simp
    with Cons show ?thesis by simp
  qed
  have 3: "no_break ?b"
    by (auto simp: no_break_def list_all_iff dest: set_takeWhileD)
  from 1 2 3 show ?thesis by blast
qed

lemma part_at_first_break:
  "\<exists>a b. ws = a @ b \<and> no_break a \<and> (b = [] \<or> is_line_terminator (hd b))"
proof -
  let ?P = "\<lambda>c. \<not> is_line_terminator c"
  have 2: "dropWhile ?P ws = [] \<or> is_line_terminator (hd (dropWhile ?P ws))"
    using hd_dropWhile[of ?P ws] by blast
  have 3: "no_break (takeWhile ?P ws)"
    by (auto simp: no_break_def list_all_iff dest: set_takeWhileD)
  from takeWhile_dropWhile_id[of ?P ws, symmetric] 2 3 show ?thesis by blast
qed

lemma has_pat_cases:
  assumes h: "has_pat K W s" and K: "no_break K" and W: "\<And>T. W T \<Longrightarrow> no_break T"
  shows "(\<exists>l. is_line l s \<and> line_pat K W l) \<or> split_pat K W s"
proof (cases "split_pat K W s")
  case True
  then show ?thesis by simp
next
  case False
  from h obtain pre ws1 kw ws2 tok ws3 post where
    s: "s = pre @ ws1 @ kw @ ws2 @ tok @ ws3 @ post" and
    pre: "pre = [] \<or> is_line_terminator (last pre)" and
    w1: "list_all is_space ws1" and kw: "map upper kw = K" and
    w2: "list_all is_space ws2" and tok: "W (map upper tok)" and
    w3: "list_all is_space ws3" and post: "post = [] \<or> is_line_terminator (hd post)"
    unfolding has_pat_def by blast
  have nb2: "no_break ws2"
  proof (rule ccontr)
    assume "\<not> no_break ws2"
    with s pre w1 kw w2 tok w3 post have "split_pat K W s"
      unfolding split_pat_def by blast
    with False show False by simp
  qed
  from part_at_last_break[of ws1] obtain a1 b1 where
    p1: "ws1 = a1 @ b1" "a1 = [] \<or> is_line_terminator (last a1)" "no_break b1" by blast
  from part_at_first_break[of ws3] obtain a3 b3 where
    p3: "ws3 = a3 @ b3" "no_break a3" "b3 = [] \<or> is_line_terminator (hd b3)" by blast
  let ?l = "b1 @ kw @ ws2 @ tok @ a3"
  have nbk: "no_break kw" using no_break_upper[OF K kw] .
  have nbt: "no_break tok" using no_break_upper[OF W[OF tok] refl] .
  have e: "s = (pre @ a1) @ ?l @ (b3 @ post)" using s p1 p3 by simp
  have bol: "pre @ a1 = [] \<or> is_line_terminator (last (pre @ a1))"
    using pre p1(2) by (auto simp: last_append)
  have eol: "b3 @ post = [] \<or> is_line_terminator (hd (b3 @ post))"
    using post p3(3) by (auto simp: hd_append)
  have nb: "no_break ?l" using p1(3) nbk nb2 nbt p3(2) by simp
  have il: "is_line ?l s"
    unfolding is_line_def using e bol eol nb by blast
  have "list_all is_space b1" "list_all is_space a3" using w1 w3 p1(1) p3(1) by simp_all
  with kw w2 tok have "line_pat K W ?l"
    unfolding line_pat_def by blast
  with il show ?thesis by blast
qed

lemma line_pat_has_pat:
  assumes "is_line l s" and "line_pat K W l"
  shows "has_pat K W s"
proof -
  from assms(1) obtain pre post where
    s: "s = pre @ l @ post" "pre = [] \<or> is_line_terminator (last pre)"
       "post = [] \<or> is_line_terminator (hd post)"
    unfolding is_line_def by blast
  from assms(2) obtain ws1 kw ws2 tok ws3 where
    l: "l = ws1 @ kw @ ws2 @ tok @ ws3" "list_all is_space ws1" "map upper kw = K"
       "list_all is_space ws2" "W (map upper tok)" "list_all is_space ws3"
    unfolding line_pat_def by blast
  from s l have "s = pre @ ws1 @ kw @ ws2 @ tok @ ws3 @ post" by simp
  with s l show ?thesis unfolding has_pat_def by blast
qed

lemma split_pat_has_pat: "split_pat K W s \<Longrightarrow> has_pat K W s"
  unfolding split_pat_def has_pat_def by blast

text \<open>A text stands between the white space that \<open>trim\<close> removes.\<close>

lemma trim_between:
  "\<exists>a b. s = a @ trim s @ b \<and> list_all is_space a \<and> list_all is_space b"
proof -
  let ?a = "takeWhile is_space s" and ?r = "dropWhile is_space s"
  let ?b = "rev (takeWhile is_space (rev ?r))"
  have 1: "s = ?a @ ?r" by simp
  have 2: "?r = trim s @ ?b"
    unfolding trim_def
    using takeWhile_dropWhile_id[of is_space "rev ?r"] by (metis rev_append rev_rev_ident)
  have 3: "list_all is_space ?a" by (simp add: list_all_iff) (meson set_takeWhileD)
  have 4: "list_all is_space ?b" by (simp add: list_all_iff) (meson set_takeWhileD)
  from 1 2 have "s = ?a @ trim s @ ?b" by simp
  with 3 4 show ?thesis by blast
qed

lemma has_pat_between:
  assumes h: "has_pat K W t" and a: "list_all is_space a" and b: "list_all is_space b"
  shows "has_pat K W (a @ t @ b)"
proof -
  from h obtain pre ws1 kw ws2 tok ws3 post where
    s: "t = pre @ ws1 @ kw @ ws2 @ tok @ ws3 @ post" and
    pre: "pre = [] \<or> is_line_terminator (last pre)" and
    w1: "list_all is_space ws1" and kw: "map upper kw = K" and
    w2: "list_all is_space ws2" and tok: "W (map upper tok)" and
    w3: "list_all is_space ws3" and post: "post = [] \<or> is_line_terminator (hd post)"
    unfolding has_pat_def by blast
  define pre' where "pre' = (if pre = [] then [] else a @ pre)"
  define ws1' where "ws1' = (if pre = [] then a @ ws1 else ws1)"
  define post' where "post' = (if post = [] then [] else post @ b)"
  define ws3' where "ws3' = (if post = [] then ws3 @ b else ws3)"
  have e: "a @ t @ b = pre' @ ws1' @ kw @ ws2 @ tok @ ws3' @ post'"
    using s by (simp add: pre'_def ws1'_def post'_def ws3'_def)
  have p: "pre' = [] \<or> is_line_terminator (last pre')" using pre by (auto simp: pre'_def)
  have q: "post' = [] \<or> is_line_terminator (hd post')" using post by (auto simp: post'_def hd_append)
  have w1': "list_all is_space ws1'" using w1 a by (simp add: ws1'_def)
  have w3': "list_all is_space ws3'" using w3 b by (simp add: ws3'_def)
  from e p q w1' w3' kw w2 tok show ?thesis unfolding has_pat_def by blast
qed

lemma has_status_trim: "has_status (trim raw) \<Longrightarrow> has_status raw"
proof -
  assume h: "has_status (trim raw)"
  from trim_between[of raw] obtain a b where
    r: "raw = a @ trim raw @ b" "list_all is_space a" "list_all is_space b" by blast
  from h have "has_pat ''STATUS:'' status_word (trim raw)" by (simp only: has_status_pat)
  from has_pat_between[OF this r(2) r(3)] r(1) show ?thesis by (simp only: has_status_pat)
qed

lemma status_line_pat: "status_line l = line_pat ''STATUS:'' status_word l"
  by (simp add: status_line_def line_pat_def)

lemma split_status_pat: "split_status s = split_pat ''STATUS:'' status_word s"
  by (simp add: split_status_def split_pat_def)

lemma no_break_keyword: "no_break ''STATUS:''"
  by (simp add: no_break_def is_line_terminator_def)

lemma no_break_tokens: "status_word T \<Longrightarrow> no_break T"
  unfolding status_word_def by (elim disjE; simp add: no_break_def is_line_terminator_def)

lemma has_status_cases: "has_status s \<longleftrightarrow> has_status_line s \<or> split_status s"
proof
  assume "has_status s"
  then have "has_pat ''STATUS:'' status_word s" by (simp only: has_status_pat)
  from has_pat_cases[OF this no_break_keyword no_break_tokens]
  show "has_status_line s \<or> split_status s"
    by (simp only: has_status_line_def status_line_pat split_status_pat)
next
  assume "has_status_line s \<or> split_status s"
  then have "has_pat ''STATUS:'' status_word s"
    unfolding has_status_line_def status_line_pat split_status_pat
    using line_pat_has_pat split_pat_has_pat by blast
  then show "has_status s" by (simp only: has_status_pat)
qed

text \<open>
  Claim C6, amended. For every engine reply that is not blank, in which no line is a
  status line and in which no \<^verbatim>\<open>STATUS:\<close> is parted from a following token by a line
  break, \<open>parseHeartbeatResponse\<close> returns status \<open>CHAT_YES\<close> with the trimmed reply as
  content, the reason \<^verbatim>\<open>unparsed response\<close> and the \<open>unparsed\<close> flag set. For a blank
  reply it returns \<open>HEARTBEAT_OK\<close> with the reason \<^verbatim>\<open>empty response\<close>, empty content and
  the flag unset.
\<close>

theorem unparsed_reply_fails_open:
  "(trim raw \<noteq> [] \<and> \<not> has_status_line raw \<and> \<not> split_status raw \<longrightarrow>
      parseHeartbeatResponse raw
        = \<lparr>status = CHAT_YES, reason = ''unparsed response'', content = trim raw, unparsed = True\<rparr>)
   \<and> (trim raw = [] \<longrightarrow>
      parseHeartbeatResponse raw
        = \<lparr>status = HEARTBEAT_OK, reason = ''empty response'', content = [], unparsed = False\<rparr>)"
proof (intro conjI impI)
  assume a: "trim raw \<noteq> [] \<and> \<not> has_status_line raw \<and> \<not> split_status raw"
  then have "\<not> has_status raw" by (simp add: has_status_cases)
  then have "\<not> has_status (trim raw)" using has_status_trim by blast
  then have "scan_lines status_at True (trim raw) = None"
    using status_scan_iff[of "trim raw"] by simp
  with a show "parseHeartbeatResponse raw
        = \<lparr>status = CHAT_YES, reason = ''unparsed response'', content = trim raw, unparsed = True\<rparr>"
    by (simp add: parseHeartbeatResponse_def Let_def)
next
  assume "trim raw = []"
  then show "parseHeartbeatResponse raw
        = \<lparr>status = HEARTBEAT_OK, reason = ''empty response'', content = [], unparsed = False\<rparr>"
    by (simp add: parseHeartbeatResponse_def Let_def)
qed

lemma trim_sample: "trim ''  BTC crashed! '' = ''BTC crashed!''"
  by (simp add: trim_def is_space_def)

lemma scan_sample: "scan_lines status_at True ''  BTC crashed! '' = None"
  by (simp add: status_at_def is_space_def is_line_terminator_def upper_def)

theorem unparsed_reply_fails_open_witness:
  "trim ''  BTC crashed! '' \<noteq> []
   \<and> \<not> has_status_line ''  BTC crashed! '' \<and> \<not> split_status ''  BTC crashed! ''
   \<and> parseHeartbeatResponse ''  BTC crashed! ''
       = \<lparr>status = CHAT_YES, reason = ''unparsed response'', content = ''BTC crashed!'', unparsed = True\<rparr>
   \<and> trim [CHR '' '', CHR 0x0A] = []
   \<and> parseHeartbeatResponse [CHR '' '', CHR 0x0A]
       = \<lparr>status = HEARTBEAT_OK, reason = ''empty response'', content = [], unparsed = False\<rparr>"
proof -
  have a: "trim ''  BTC crashed! '' \<noteq> []" by (simp add: trim_sample)
  have "\<not> has_status ''  BTC crashed! ''"
    by (rule scan_None_no_status[OF scan_sample])
  then have b: "\<not> has_status_line ''  BTC crashed! '' \<and> \<not> split_status ''  BTC crashed! ''"
    by (simp only: has_status_cases) simp
  have c: "trim [CHR '' '', CHR 0x0A] = []" by (simp add: trim_def is_space_def)
  from unparsed_reply_fails_open[of "''  BTC crashed! ''"] a b
  have 1: "parseHeartbeatResponse ''  BTC crashed! ''
       = \<lparr>status = CHAT_YES, reason = ''unparsed response'', content = ''BTC crashed!'', unparsed = True\<rparr>"
    by (simp only: trim_sample) simp
  from unparsed_reply_fails_open[of "[CHR '' '', CHR 0x0A]"] c
  have 2: "parseHeartbeatResponse [CHR '' '', CHR 0x0A]
       = \<lparr>status = HEARTBEAT_OK, reason = ''empty response'', content = [], unparsed = False\<rparr>"
    by blast
  from a b c 1 2 show ?thesis by (intro conjI) simp_all
qed

text \<open>
  As stated, C6 covers the blank reply too, in which no line is a status line. The code
  answers it before looking for one: status \<open>HEARTBEAT_OK\<close>, empty content, \<open>unparsed\<close>
  false.
\<close>

theorem empty_reply_not_unparsed:
  "\<not> has_status_line []
   \<and> parseHeartbeatResponse []
       = \<lparr>status = HEARTBEAT_OK, reason = ''empty response'', content = [], unparsed = False\<rparr>"
proof -
  have "scan_lines status_at True [] = None" by (simp add: status_at_def)
  then have "\<not> has_status []" by (rule scan_None_no_status)
  then have "\<not> has_status_line []" by (simp add: has_status_cases)
  then show ?thesis by (simp add: parseHeartbeatResponse_def trim_def)
qed

text \<open>
  The keyword on one line and the token on the next: no line is a status line, and the
  matcher takes the two for a status. The theorem above says nothing of such a reply.
\<close>

lemma line_pat_length:
  assumes "line_pat K W l" and W: "\<And>T. W T \<Longrightarrow> n \<le> length T"
  shows "length K + n \<le> length l"
proof -
  from assms(1) obtain ws1 kw ws2 tok ws3 where
    l: "l = ws1 @ kw @ ws2 @ tok @ ws3" and kw: "map upper kw = K"
    and tok: "W (map upper tok)"
    unfolding line_pat_def by blast
  from kw have k: "length kw = length K" by auto
  from W[OF tok] have "n \<le> length tok" by simp
  with k l show ?thesis by simp
qed

lemma status_word_length: "status_word T \<Longrightarrow> 7 \<le> length T"
  unfolding status_word_def by (elim disjE; simp)

lemma status_line_length: "status_line l \<Longrightarrow> 14 \<le> length l"
  using line_pat_length[of "''STATUS:''" status_word l 7, OF _ status_word_length]
  by (simp add: status_line_pat)


lemma line_beside_break:
  assumes l: "is_line l s" and s: "s = A @ t # B" and t: "is_line_terminator t"
  shows "length l \<le> max (length A) (length B)"
proof -
  from l obtain pre post where e: "s = pre @ l @ post" and nb: "no_break l"
    unfolding is_line_def by blast
  show ?thesis
  proof (rule ccontr)
    assume c: "\<not> length l \<le> max (length A) (length B)"
    from e have "length s = length pre + length l + length post" by simp
    moreover from s have "length s = length A + 1 + length B" by simp
    ultimately have len: "length pre + length l + length post = length A + 1 + length B" by simp
    from c len have 1: "length pre \<le> length A" and 2: "length A < length pre + length l"
      by auto
    then have 3: "length A - length pre < length l" by arith
    from s have "s ! length A = t" by simp
    moreover from e 1 3 have "s ! length A = l ! (length A - length pre)"
      by (simp add: nth_append)
    ultimately have "l ! (length A - length pre) = t" by simp
    with nth_mem[OF 3] have "t \<in> set l" by simp
    with nb t show False by (simp add: no_break_def list_all_iff)
  qed
qed

lemma split_sample_parse:
  "parseHeartbeatResponse (''status:'' @ CHR 0x0A # ''heartbeat_ok'')
       = \<lparr>status = HEARTBEAT_OK, reason = [], content = [], unparsed = False\<rparr>"
  by (simp add: parseHeartbeatResponse_def trim_def is_space_def is_line_terminator_def
      status_at_def reason_at_def content_at_def status_tokens_def upper_def at_line_end_def Let_def)

lemma split_status_sample:
  "\<not> has_status_line (''status:'' @ CHR 0x0A # ''heartbeat_ok'')
   \<and> split_status (''status:'' @ CHR 0x0A # ''heartbeat_ok'')
   \<and> parseHeartbeatResponse (''status:'' @ CHR 0x0A # ''heartbeat_ok'')
       = \<lparr>status = HEARTBEAT_OK, reason = [], content = [], unparsed = False\<rparr>"
proof -
  let ?s = "''status:'' @ CHR 0x0A # ''heartbeat_ok''"
  have a: "\<not> has_status_line ?s"
  proof
    assume "has_status_line ?s"
    then obtain l where l: "is_line l ?s" "status_line l" unfolding has_status_line_def by blast
    have "is_line_terminator (CHR 0x0A)" by (simp add: is_line_terminator_def)
    from line_beside_break[OF l(1) refl this] have "length l \<le> 12" by simp
    with status_line_length[OF l(2)] show False by simp
  qed
  have "reason (parseHeartbeatResponse ?s) = []" by (simp only: split_sample_parse) simp
  then have "scan_lines status_at True (trim ?s) \<noteq> None"
    by (auto simp: parseHeartbeatResponse_def Let_def split: if_splits option.splits)
  then have "has_status (trim ?s)" by (simp only: status_scan_iff)
  then have "has_status ?s" by (rule has_status_trim)
  with a have b: "split_status ?s" by (simp only: has_status_cases) simp
  from a b split_sample_parse show ?thesis by (intro conjI)
qed


section \<open>Listeners: drop while busy\<close>

text \<open>
  Claim C3. A fire event that reaches the heartbeat or the cron listener while its
  \<^verbatim>\<open>processing\<close> flag is set is dropped: \<^verbatim>\<open>handleFire\<close> leaves the whole state as it was
  (no engine call and no delivery enter the trace, nothing is appended to the log,
  nothing is stored for later), and any further run of the listener is the run it would
  have made had the event never arrived.
\<close>

theorem busy_listener_drops_fire:
  assumes "processing hb" and "cl_processing cl"
  shows "hb_handleFire hb pl t = hb
       \<and> hb_run cm hb (Fire pl t # ins) = hb_run cm hb ins
       \<and> cl_handleFire cl pl t = cl
       \<and> cl_run cl (Fire pl t # ins) = cl_run cl ins"
  using assms by (simp add: hb_handleFire_def cl_handleFire_def)

theorem busy_listener_drops_fire_witness:
  "processing sample_heartbeat \<and> cl_processing sample_listener
   \<and> hb_handleFire sample_heartbeat sample_fire 1200 = sample_heartbeat
   \<and> hb_run (\<lambda>tz t. 0) sample_heartbeat [Fire sample_fire 1200, Resume sample_env]
        = hb_run (\<lambda>tz t. 0) sample_heartbeat [Resume sample_env]
   \<and> cl_handleFire sample_listener \<lparr>jobId = ''c9'', jobName = ''check-btc'', fire_payload = ''Check BTC''\<rparr> 1200
        = sample_listener
   \<and> cl_run sample_listener [Fire \<lparr>jobId = ''c9'', jobName = ''check-btc'', fire_payload = ''Check BTC''\<rparr> 1200, Resume sample_env]
        = cl_run sample_listener [Resume sample_env]"
proof -
  have a: "processing sample_heartbeat" by (simp add: sample_heartbeat_def)
  have b: "cl_processing sample_listener" by (simp add: sample_listener_def)
  from busy_listener_drops_fire[OF a b] a b show ?thesis by simp
qed

text \<open>The flag is set exactly while an invocation is suspended.\<close>

lemma hb_busy_iff_inflight:
  "(processing hb \<longleftrightarrow> inflight hb \<noteq> None) \<Longrightarrow>
     (processing (hb_run cm hb ins) \<longleftrightarrow> inflight (hb_run cm hb ins) \<noteq> None)"
proof (induction ins arbitrary: hb)
  case Nil
  then show ?case by simp
next
  case (Cons i ins)
  show ?case
  proof (cases i)
    case (Fire pl t)
    with Cons.prems have "processing (hb_handleFire hb pl t) \<longleftrightarrow> inflight (hb_handleFire hb pl t) \<noteq> None"
      by (auto simp: hb_handleFire_def)
    from Cons.IH[OF this] Fire show ?thesis by simp
  next
    case (Resume ev)
    with Cons.prems have "processing (snd (hb_resume cm ev hb)) \<longleftrightarrow> inflight (snd (hb_resume cm ev hb)) \<noteq> None"
      by (auto simp: hb_resume_def Let_def split: option.splits prod.splits sum.splits)
    from Cons.IH[OF this] Resume show ?thesis by simp
  qed
qed

section \<open>Heartbeat: delivery and duplicate suppression\<close>

lemma parse_status_only:
  "parseHeartbeatResponse ''STATUS: CHAT_YES''
     = \<lparr>status = CHAT_YES, reason = [], content = [], unparsed = False\<rparr>"
  by (simp add: parseHeartbeatResponse_def trim_def is_space_def is_line_terminator_def
      status_at_def reason_at_def content_at_def status_tokens_def upper_def at_line_end_def Let_def)

lemma parse_plain_sample:
  "parseHeartbeatResponse ''BTC crashed!''
     = \<lparr>status = CHAT_YES, reason = ''unparsed response'', content = ''BTC crashed!'', unparsed = True\<rparr>"
  by (simp add: parseHeartbeatResponse_def trim_def is_space_def is_line_terminator_def
      status_at_def upper_def Let_def)

text \<open>The delivery branch of the heartbeat's \<^verbatim>\<open>try\<close> block, for a target that resolves.\<close>

lemma hb_try_deliver:
  assumes "isWithinActiveHours cm (activeHours cfg) (Some (t_guard ev))"
    and "engine_reply ev = Inr raw"
    and "status (parseHeartbeatResponse raw) = CHAT_YES"
    and "text = (if content (parseHeartbeatResponse raw) \<noteq> [] then content (parseHeartbeatResponse raw) else raw)"
    and "trim text \<noteq> []"
    and "\<not> isDuplicate dd text (t_dedup ev)"
    and "target ev = Some ok"
  shows "hb_try cm cfg ev pl startMs dd lg
           = (fst (try_append ev lg ''heartbeat.done''
                     (HeartbeatDone text (reason (parseHeartbeatResponse raw)) (t_replied ev - startMs) ok)),
              (if ok then record_dedup dd text (t_record ev) else dd),
              snd (try_append ev lg ''heartbeat.done''
                     (HeartbeatDone text (reason (parseHeartbeatResponse raw)) (t_replied ev - startMs) ok)),
              [AskEngine (fire_payload pl), Deliver text ok])"
  using assms by (simp add: hb_try_def Let_def split: prod.splits)

lemma chat_yes_not_blank: "status (parseHeartbeatResponse raw) = CHAT_YES \<Longrightarrow> trim raw \<noteq> []"
  by (auto simp: parseHeartbeatResponse_def Let_def split: if_splits)

text \<open>
  With status \<open>CHAT_YES\<close> and empty content, the text handed on is the raw reply, which
  is not blank: the invocation goes on to the duplicate check and the delivery.
\<close>

lemma hb_try_chat_yes_empty_content:
  assumes "isWithinActiveHours cm (activeHours cfg) (Some (t_guard ev))"
    and "engine_reply ev = Inr raw"
    and "status (parseHeartbeatResponse raw) = CHAT_YES"
    and "content (parseHeartbeatResponse raw) = []"
    and "\<not> isDuplicate dd raw (t_dedup ev)"
    and "target ev = Some True"
  shows "hb_try cm cfg ev pl startMs dd lg
           = (fst (try_append ev lg ''heartbeat.done''
                     (HeartbeatDone raw (reason (parseHeartbeatResponse raw)) (t_replied ev - startMs) True)),
              record_dedup dd raw (t_record ev),
              snd (try_append ev lg ''heartbeat.done''
                     (HeartbeatDone raw (reason (parseHeartbeatResponse raw)) (t_replied ev - startMs) True)),
              [AskEngine (fire_payload pl), Deliver raw True])"
  using hb_try_deliver[OF assms(1,2,3), of raw dd True pl startMs lg] assms(4,5,6)
    chat_yes_not_blank[OF assms(3)] by simp

lemma sample_heartbeat_fields:
  "inflight sample_heartbeat = Some (sample_fire, 990)" "hb_trace sample_heartbeat = []"
  "dedup sample_heartbeat = \<lparr>lastText = None, lastSentAt = 0, windowMs = 86400000\<rparr>"
  "hb_log sample_heartbeat = sample_log" "activeHours (hb_config sample_heartbeat) = None"
  by (simp_all add: sample_heartbeat_def new_dedup_def)

text \<open>The sample invocation on a plain reply, with a delivery that resolves or rejects.\<close>

lemma sample_resume_plain:
  "hb_resume cm (sample_env\<lparr>engine_reply := Inr ''BTC crashed!'', target := Some ok\<rparr>) sample_heartbeat
     = (Inr (),
        sample_heartbeat
          \<lparr>dedup := (if ok then \<lparr>lastText = Some ''BTC crashed!'', lastSentAt = 1502, windowMs = 86400000\<rparr>
                     else \<lparr>lastText = None, lastSentAt = 0, windowMs = 86400000\<rparr>),
           hb_trace := [AskEngine ''Check'', Deliver ''BTC crashed!'' ok],
           hb_log := \<lparr>log_file = Some [Json \<lparr>seq = 1, ts = 1503, type = ''heartbeat.done'',
                          payload = HeartbeatDone ''BTC crashed!'' ''unparsed response'' 510 ok\<rparr>],
                      seq_counter = 1,
                      buffer = [\<lparr>seq = 1, ts = 1503, type = ''heartbeat.done'',
                          payload = HeartbeatDone ''BTC crashed!'' ''unparsed response'' 510 ok\<rparr>],
                      bufferSize = 500\<rparr>,
           processing := False, inflight := None\<rparr>)"
proof -
  let ?ev = "sample_env\<lparr>engine_reply := Inr ''BTC crashed!'', target := Some ok\<rparr>"
  have tr: "trim ''BTC crashed!'' \<noteq> []" by (simp add: trim_def is_space_def)
  have t: "hb_try cm (hb_config sample_heartbeat) ?ev sample_fire 990
             (dedup sample_heartbeat) (hb_log sample_heartbeat)
           = (Inr (), (if ok then \<lparr>lastText = Some ''BTC crashed!'', lastSentAt = 1502, windowMs = 86400000\<rparr>
                     else \<lparr>lastText = None, lastSentAt = 0, windowMs = 86400000\<rparr>),
              \<lparr>log_file = Some [Json \<lparr>seq = 1, ts = 1503, type = ''heartbeat.done'',
                          payload = HeartbeatDone ''BTC crashed!'' ''unparsed response'' 510 ok\<rparr>],
                      seq_counter = 1,
                      buffer = [\<lparr>seq = 1, ts = 1503, type = ''heartbeat.done'',
                          payload = HeartbeatDone ''BTC crashed!'' ''unparsed response'' 510 ok\<rparr>],
                      bufferSize = 500\<rparr>,
              [AskEngine ''Check'', Deliver ''BTC crashed!'' ok])"
    by (subst hb_try_deliver[of _ _ _ "''BTC crashed!''" "''BTC crashed!''" _ ok])
       (simp_all add: parse_plain_sample tr sample_heartbeat_fields sample_env_def sample_fire_def
          sample_log_def isWithinActiveHours_def isDuplicate_def record_dedup_def
          try_append_def append_def appendFile_def Let_def)
  show ?thesis
    by (simp add: hb_resume_def sample_heartbeat_fields(1,2) t)
qed

lemma last_dropWhile: "dropWhile P xs \<noteq> [] \<Longrightarrow> last (dropWhile P xs) = last xs"
  by (induction xs) (auto split: if_splits)

lemma trim_ends:
  assumes "trim s \<noteq> []"
  shows "\<not> is_space (hd (trim s))" and "\<not> is_space (last (trim s))"
proof -
  let ?u = "dropWhile is_space s"
  let ?v = "dropWhile is_space (rev ?u)"
  from assms have v: "?v \<noteq> []" by (simp add: trim_def)
  have u: "?u \<noteq> []"
  proof
    assume a: "?u = []"
    have "?v = dropWhile is_space (rev [])" by (simp only: a)
    with v show False by simp
  qed
  have "hd (trim s) = last ?v" using v by (simp add: trim_def hd_rev)
  also have "\<dots> = last (rev ?u)" using v by (rule last_dropWhile)
  also have "\<dots> = hd ?u" using u by (simp add: last_rev)
  finally show "\<not> is_space (hd (trim s))" using hd_dropWhile[OF u] by simp
  have "last (trim s) = hd ?v" using v by (simp add: trim_def last_rev)
  then show "\<not> is_space (last (trim s))" using hd_dropWhile[OF v] by simp
qed

lemma trim_Nil: "trim [] = []"
  by (simp add: trim_def)

lemma trim_idem: "trim (trim s) = trim s"
proof (cases "trim s = []")
  case True
  then show ?thesis by (simp add: trim_Nil)
next
  case False
  from trim_ends[OF False] False have a: "dropWhile is_space (trim s) = trim s"
    by (cases "trim s") auto
  from trim_ends[OF False] False have "dropWhile is_space (rev (trim s)) = rev (trim s)"
    by (cases "rev (trim s)") (auto simp: hd_rev)
  with a show ?thesis by (simp add: trim_def[of "trim s"])
qed

lemma parsed_content_trimmed:
  "trim (content (parseHeartbeatResponse raw)) = content (parseHeartbeatResponse raw)"
  by (auto simp: parseHeartbeatResponse_def Let_def trim_idem trim_Nil split: option.splits)

text \<open>
  The text handed to the duplicate check is never blank, so no invocation reaches the
  skip with reason \<^verbatim>\<open>empty\<close>.
\<close>

lemma deliverable_text_not_blank:
  assumes "status (parseHeartbeatResponse raw) \<noteq> HEARTBEAT_OK"
  shows "trim (if content (parseHeartbeatResponse raw) \<noteq> [] then content (parseHeartbeatResponse raw)
               else raw) \<noteq> []"
proof (cases "content (parseHeartbeatResponse raw) = []")
  case True
  from assms have "trim raw \<noteq> []"
    by (auto simp: parseHeartbeatResponse_def Let_def split: if_splits)
  with True show ?thesis by simp
next
  case False
  then show ?thesis by (simp add: parsed_content_trimmed)
qed

lemma heartbeat_never_skips_empty:
  assumes "hb_try cm cfg ev pl startMs dd lg = (r, dd', lg', effs)"
  shows "\<forall>e \<in> set (disk_lines (log_file lg')) - set (disk_lines (log_file lg)).
           \<forall>entry. e = Json entry \<longrightarrow> payload entry \<noteq> HeartbeatSkip ''empty'' None"
proof -
  have ap: "\<And>ok t ty p res l'. append lg ok t ty p = (res, l') \<Longrightarrow>
      set (disk_lines (log_file l')) - set (disk_lines (log_file lg))
        \<subseteq> {Json \<lparr>seq = seq_counter lg + 1, ts = t, type = ty, payload = p\<rparr>}"
    by (auto simp: append_def Let_def appendFile_def disk_lines_def split: if_splits option.splits)
  have ta: "\<And>ty p res l'. try_append ev lg ty p = (res, l') \<Longrightarrow>
      set (disk_lines (log_file l')) - set (disk_lines (log_file lg))
        \<subseteq> {Json \<lparr>seq = seq_counter lg + 1, ts = append_ts ev, type = ty, payload = p\<rparr>}"
    using ap by (fastforce simp: try_append_def split: prod.splits sum.splits)
  show ?thesis
  proof (cases "isWithinActiveHours cm (activeHours cfg) (Some (t_guard ev))")
    case False
    with assms obtain res where "try_append ev lg ''heartbeat.skip'' (HeartbeatSkip ''outside-active-hours'' None) = (res, lg')"
      by (auto simp: hb_try_def Let_def split: prod.splits)
    from ta[OF this] show ?thesis by auto
  next
    case active: True
    show ?thesis
    proof (cases "engine_reply ev")
      case (Inl msg)
      with active assms have "lg' = lg" by (simp add: hb_try_def)
      then show ?thesis by simp
    next
      case (Inr raw)
      let ?p = "parseHeartbeatResponse raw"
      show ?thesis
      proof (cases "status ?p = HEARTBEAT_OK \<or> status ?p = CHAT_NO")
        case True
        with active Inr assms obtain res where "try_append ev lg ''heartbeat.skip''
            (HeartbeatSkip (if status ?p = HEARTBEAT_OK then ''ack'' else ''chat-no'') (Some (reason ?p))) = (res, lg')"
          by (auto simp: hb_try_def Let_def split: prod.splits)
        from ta[OF this] show ?thesis by auto
      next
        case False
        then have nb: "trim (if content ?p \<noteq> [] then content ?p else raw) \<noteq> []"
          using deliverable_text_not_blank[of raw] by simp
        let ?text = "if content ?p \<noteq> [] then content ?p else raw"
        from active Inr False nb assms
        have "(\<exists>res. try_append ev lg ''heartbeat.skip'' (HeartbeatSkip ''duplicate'' None) = (res, lg'))
            \<or> (\<exists>res d. try_append ev lg ''heartbeat.done''
                    (HeartbeatDone ?text (reason ?p) (t_replied ev - startMs) d) = (res, lg'))"
          by (auto simp: hb_try_def Let_def split: prod.splits if_splits option.splits)
        then show ?thesis using ta by fastforce
      qed
    qed
  qed
qed

text \<open>
  Claim C7. A heartbeat fire that reaches the deliverable branch with status \<open>CHAT_YES\<close>
  and empty content should append \<^verbatim>\<open>heartbeat.skip\<close> with reason \<^verbatim>\<open>empty\<close> and deliver
  nothing. The code first replaces the empty content by the raw reply
  (\<^verbatim>\<open>parsed.content || result.text\<close>), which is never blank under this status
  (\<open>chat_yes_not_blank\<close>), so its own check \<^verbatim>\<open>!text.trim()\<close> cannot fire
  (\<open>hb_try_chat_yes_empty_content\<close>; no invocation at all appends that skip,
  \<open>heartbeat_never_skips_empty\<close>). On the reply \<^verbatim>\<open>STATUS: CHAT_YES\<close> the handler delivers
  the protocol text itself, records it for dedup and appends \<^verbatim>\<open>heartbeat.done\<close>.
\<close>

theorem chat_yes_without_content_is_delivered:
  "status (parseHeartbeatResponse ''STATUS: CHAT_YES'') = CHAT_YES
   \<and> content (parseHeartbeatResponse ''STATUS: CHAT_YES'') = []
   \<and> hb_resume (\<lambda>tz t. 0) sample_env sample_heartbeat
       = (Inr (),
          sample_heartbeat
            \<lparr>dedup := \<lparr>lastText = Some ''STATUS: CHAT_YES'', lastSentAt = 1502, windowMs = 86400000\<rparr>,
             hb_trace := [AskEngine ''Check'', Deliver ''STATUS: CHAT_YES'' True],
             hb_log := \<lparr>log_file = Some [Json \<lparr>seq = 1, ts = 1503, type = ''heartbeat.done'',
                                    payload = HeartbeatDone ''STATUS: CHAT_YES'' [] 510 True\<rparr>],
                        seq_counter = 1,
                        buffer = [\<lparr>seq = 1, ts = 1503, type = ''heartbeat.done'',
                                    payload = HeartbeatDone ''STATUS: CHAT_YES'' [] 510 True\<rparr>],
                        bufferSize = 500\<rparr>,
             processing := False, inflight := None\<rparr>)"
proof -
  have t: "hb_try (\<lambda>tz t. 0) (hb_config sample_heartbeat) sample_env sample_fire 990
             (dedup sample_heartbeat) (hb_log sample_heartbeat)
           = (Inr (), \<lparr>lastText = Some ''STATUS: CHAT_YES'', lastSentAt = 1502, windowMs = 86400000\<rparr>,
              \<lparr>log_file = Some [Json \<lparr>seq = 1, ts = 1503, type = ''heartbeat.done'',
                                    payload = HeartbeatDone ''STATUS: CHAT_YES'' [] 510 True\<rparr>],
                        seq_counter = 1,
                        buffer = [\<lparr>seq = 1, ts = 1503, type = ''heartbeat.done'',
                                    payload = HeartbeatDone ''STATUS: CHAT_YES'' [] 510 True\<rparr>],
                        bufferSize = 500\<rparr>,
              [AskEngine ''Check'', Deliver ''STATUS: CHAT_YES'' True])"
    by (subst hb_try_chat_yes_empty_content[of _ _ _ "''STATUS: CHAT_YES''"])
       (simp_all add: parse_status_only sample_heartbeat_fields sample_env_def sample_fire_def
          sample_log_def isWithinActiveHours_def isDuplicate_def record_dedup_def
          try_append_def append_def appendFile_def Let_def)
  show ?thesis
    by (simp add: parse_status_only hb_resume_def sample_heartbeat_fields(1,2) t)
qed

lemma hb_try_dedup:
  assumes "hb_try cm cfg ev pl startMs dd lg = (r, dd', lg', effs)"
  shows "(\<forall>text. Deliver text True \<in> set effs \<longrightarrow> dd' = record_dedup dd text (t_record ev))
       \<and> ((\<forall>text. Deliver text True \<notin> set effs) \<longrightarrow> dd' = dd)"
  using assms
  by (auto simp: hb_try_def Let_def split: if_splits sum.splits prod.splits option.splits)

text \<open>
  Claim C8, amended. The dedup entry (last delivered text and timestamp) is recorded
  exactly when a delivery of that text succeeds: an invocation whose new effects contain
  a successful delivery leaves the dedup object recording that text at the clock reading
  taken after the delivery; an invocation without a successful delivery (skipped, no
  target resolved, or a delivery that rejected) leaves the dedup object unchanged.
\<close>

theorem dedup_recorded_iff_delivered:
  assumes "inflight hb = Some (pl, startMs)"
    and "hb_resume cm ev hb = (r, hb')"
  shows "\<exists>effs. hb_trace hb' = hb_trace hb @ effs
       \<and> (\<forall>text. Deliver text True \<in> set effs \<longrightarrow> dedup hb' = record_dedup (dedup hb) text (t_record ev))
       \<and> ((\<forall>text. Deliver text True \<notin> set effs) \<longrightarrow> dedup hb' = dedup hb)"
proof -
  obtain r0 dd' lg' effs where t:
    "hb_try cm (hb_config hb) ev pl startMs (dedup hb) (hb_log hb) = (r0, dd', lg', effs)"
    by (cases "hb_try cm (hb_config hb) ev pl startMs (dedup hb) (hb_log hb)") auto
  from assms t have "hb_trace hb' = hb_trace hb @ effs \<and> dedup hb' = dd'"
    by (auto simp: hb_resume_def Let_def split: sum.splits prod.splits)
  with hb_try_dedup[OF t] show ?thesis by auto
qed

theorem dedup_recorded_iff_delivered_witness:
  "inflight sample_heartbeat = Some (sample_fire, 990)
   \<and> hb_trace (snd (hb_resume (\<lambda>tz t. 0)
         (sample_env\<lparr>engine_reply := Inr ''BTC crashed!'', target := Some True\<rparr>) sample_heartbeat))
       = [AskEngine ''Check'', Deliver ''BTC crashed!'' True]
   \<and> dedup (snd (hb_resume (\<lambda>tz t. 0)
         (sample_env\<lparr>engine_reply := Inr ''BTC crashed!'', target := Some True\<rparr>) sample_heartbeat))
       = \<lparr>lastText = Some ''BTC crashed!'', lastSentAt = 1502, windowMs = 86400000\<rparr>"
proof -
  let ?ev = "sample_env\<lparr>engine_reply := Inr ''BTC crashed!'', target := Some True\<rparr>"
  let ?r = "hb_resume (\<lambda>tz t. 0) ?ev sample_heartbeat"
  have e: "?r = (fst ?r, snd ?r)" by simp
  have tr: "hb_trace (snd ?r) = [AskEngine ''Check'', Deliver ''BTC crashed!'' True]"
    by (simp add: sample_resume_plain)
  from dedup_recorded_iff_delivered[OF sample_heartbeat_fields(1) e]
  obtain effs where effs: "hb_trace (snd ?r) = hb_trace sample_heartbeat @ effs"
    and rec: "\<forall>text. Deliver text True \<in> set effs \<longrightarrow>
                dedup (snd ?r) = record_dedup (dedup sample_heartbeat) text (t_record ?ev)"
    by blast
  from effs tr have "effs = [AskEngine ''Check'', Deliver ''BTC crashed!'' True]"
    by (simp add: sample_heartbeat_fields)
  then have "Deliver ''BTC crashed!'' True \<in> set effs" by simp
  with rec have "dedup (snd ?r) = record_dedup (dedup sample_heartbeat) ''BTC crashed!'' (t_record ?ev)"
    by blast
  then have "dedup (snd ?r) = \<lparr>lastText = Some ''BTC crashed!'', lastSentAt = 1502, windowMs = 86400000\<rparr>"
    by (simp add: record_dedup_def sample_heartbeat_fields sample_env_def)
  with tr sample_heartbeat_fields(1) show ?thesis by simp
qed

text \<open>
  As stated, C8 has every attempted delivery record its text. When the target's
  \<^verbatim>\<open>deliver\<close> rejects, the attempt is in the trace and the dedup object is untouched.
\<close>

theorem failed_delivery_not_recorded:
  "hb_trace (snd (hb_resume (\<lambda>tz t. 0)
         (sample_env\<lparr>engine_reply := Inr ''BTC crashed!'', target := Some False\<rparr>) sample_heartbeat))
       = [AskEngine ''Check'', Deliver ''BTC crashed!'' False]
   \<and> dedup (snd (hb_resume (\<lambda>tz t. 0)
         (sample_env\<lparr>engine_reply := Inr ''BTC crashed!'', target := Some False\<rparr>) sample_heartbeat))
       = dedup sample_heartbeat
   \<and> lastText (dedup (snd (hb_resume (\<lambda>tz t. 0)
         (sample_env\<lparr>engine_reply := Inr ''BTC crashed!'', target := Some False\<rparr>) sample_heartbeat)))
       = None"
  by (simp add: sample_resume_plain sample_heartbeat_fields)

section \<open>Cron engine: when the next run is null\<close>

subsection \<open>Durations and cron fields as the parsers read them\<close>

lemma not_digit_chars:
  "\<not> is_digit CHR ''h''" "\<not> is_digit CHR ''m''" "\<not> is_digit CHR ''s''"
  "\<not> is_digit CHR ''-''" "\<not> is_digit CHR ''/''" "\<not> is_digit CHR ''*''"
  by (simp_all add: is_digit_def digit_val_def)

lemma split_digits:
  assumes "list_all is_digit ds" and "r = [] \<or> \<not> is_digit (hd r)"
  shows "takeWhile is_digit (ds @ r) = ds" and "dropWhile is_digit (ds @ r) = r"
  using assms by (cases r; simp add: list_all_iff takeWhile_append2 dropWhile_append2)+

lemma digits_parts:
  "s = takeWhile is_digit s @ dropWhile is_digit s"
  "list_all is_digit (takeWhile is_digit s)"
  "dropWhile is_digit s = [] \<or> \<not> is_digit (hd (dropWhile is_digit s))"
  using hd_dropWhile[of is_digit s]
  by (auto simp: list_all_iff dest: set_takeWhileD)

subsection \<open>Durations\<close>

lemma take_unit_Nil: "take_unit u [] = (None, [])"
  by (simp add: take_unit_def)

lemma take_unit_Some:
  "digits ds \<Longrightarrow> \<not> is_digit u \<Longrightarrow> take_unit u (ds @ u # r) = (Some (nat_of_digits ds), r)"
  using split_digits[of ds "u # r"] by (simp add: take_unit_def Let_def digits_def)

lemma take_unit_other:
  "digits ds \<Longrightarrow> \<not> is_digit c \<Longrightarrow> c \<noteq> u \<Longrightarrow> take_unit u (ds @ c # r) = (None, ds @ c # r)"
  using split_digits[of ds "c # r"] by (simp add: take_unit_def Let_def digits_def)

lemma take_unitD:
  assumes "take_unit u x = (v, r)"
  shows "\<exists>g. x = g @ r \<and> component u g (case v of None \<Rightarrow> 0 | Some n \<Rightarrow> n)"
proof (cases "takeWhile is_digit x \<noteq> [] \<and> dropWhile is_digit x \<noteq> [] \<and> hd (dropWhile is_digit x) = u")
  case True
  with assms have v: "v = Some (nat_of_digits (takeWhile is_digit x))"
    and r: "r = tl (dropWhile is_digit x)"
    by (auto simp: take_unit_def Let_def)
  from True r have "dropWhile is_digit x = u # r" by (cases "dropWhile is_digit x") auto
  with digits_parts(1)[of x] have e: "x = (takeWhile is_digit x @ [u]) @ r" by simp
  have "digits (takeWhile is_digit x)"
    using True digits_parts(2)[of x] by (simp add: digits_def)
  then have "component u (takeWhile is_digit x @ [u]) (nat_of_digits (takeWhile is_digit x))"
    unfolding component_def by blast
  then have "component u (takeWhile is_digit x @ [u]) (case v of None \<Rightarrow> 0 | Some n \<Rightarrow> n)"
    by (simp add: v)
  with e show ?thesis by blast
next
  case False
  with assms have "v = None" "r = x" by (auto simp: take_unit_def Let_def)
  then show ?thesis by (simp add: component_def)
qed

lemma parseDuration_of_text:
  assumes "duration_text (trim e) h m s"
  shows "parseDuration e = (if h = 0 \<and> m = 0 \<and> s = 0 then None
                            else Some (int ((h * 3600 + m * 60 + s) * 1000)))"
proof -
  from assms obtain gh gm gs where t: "trim e = gh @ gm @ gs"
    and ch: "component CHR ''h'' gh h" and cm: "component CHR ''m'' gm m"
    and cs: "component CHR ''s'' gs s"
    unfolding duration_text_def by blast
  have s3: "take_unit CHR ''s'' gs = (if gs = [] then None else Some s, [])"
    using cs unfolding component_def
    by (elim disjE exE conjE) (simp_all add: take_unit_Nil take_unit_Some not_digit_chars)
  have m2: "take_unit CHR ''m'' (gm @ gs) = (if gm = [] then None else Some m, gs)"
    using cm cs unfolding component_def
    by (elim disjE exE conjE)
       (simp_all add: take_unit_Nil take_unit_Some take_unit_other not_digit_chars)
  have h1: "take_unit CHR ''h'' (gh @ gm @ gs) = (if gh = [] then None else Some h, gm @ gs)"
    using ch cm cs unfolding component_def
    by (elim disjE exE conjE)
       (simp_all add: take_unit_Nil take_unit_Some take_unit_other not_digit_chars)
  have z: "gh = [] \<Longrightarrow> h = 0" "gm = [] \<Longrightarrow> m = 0" "gs = [] \<Longrightarrow> s = 0"
    using ch cm cs unfolding component_def by auto
  show ?thesis
    using z by (simp add: parseDuration_def t h1 m2 s3 Let_def)
qed

lemma parseDuration_text:
  assumes "parseDuration e = Some ms"
  shows "\<exists>h m s. duration_text (trim e) h m s \<and> ms = int ((h * 3600 + m * 60 + s) * 1000) \<and> 0 < ms"
proof -
  obtain ho r1 where 1: "take_unit CHR ''h'' (trim e) = (ho, r1)" by (cases "take_unit CHR ''h'' (trim e)")
  obtain mo r2 where 2: "take_unit CHR ''m'' r1 = (mo, r2)" by (cases "take_unit CHR ''m'' r1")
  obtain so r3 where 3: "take_unit CHR ''s'' r2 = (so, r3)" by (cases "take_unit CHR ''s'' r2")
  let ?h = "case ho of None \<Rightarrow> 0 | Some n \<Rightarrow> n"
  let ?m = "case mo of None \<Rightarrow> 0 | Some n \<Rightarrow> n"
  let ?s = "case so of None \<Rightarrow> 0 | Some n \<Rightarrow> n"
  from assms 1 2 3 have r3: "r3 = []" and nz: "\<not> (?h = 0 \<and> ?m = 0 \<and> ?s = 0)"
    and ms: "ms = int ((?h * 3600 + ?m * 60 + ?s) * 1000)"
    by (auto simp: parseDuration_def Let_def split: if_splits)
  from take_unitD[OF 1] obtain gh where gh: "trim e = gh @ r1" "component CHR ''h'' gh ?h" by blast
  from take_unitD[OF 2] obtain gm where gm: "r1 = gm @ r2" "component CHR ''m'' gm ?m" by blast
  from take_unitD[OF 3] obtain gs where gs: "r2 = gs @ r3" "component CHR ''s'' gs ?s" by blast
  from gh gm gs r3 have "duration_text (trim e) ?h ?m ?s"
    unfolding duration_text_def by auto
  moreover from nz ms have "0 < ms" by auto
  ultimately show ?thesis using ms by blast
qed

lemma parseDuration_iff: "parseDuration e = Some ms \<longleftrightarrow> valid_duration e ms"
proof
  assume "parseDuration e = Some ms"
  from parseDuration_text[OF this] show "valid_duration e ms" by (simp add: valid_duration_def)
next
  assume "valid_duration e ms"
  then obtain h m s where d: "duration_text (trim e) h m s"
    and ms: "ms = int ((h * 3600 + m * 60 + s) * 1000)" "0 < ms"
    unfolding valid_duration_def by blast
  from ms have "\<not> (h = 0 \<and> m = 0 \<and> s = 0)" by auto
  with parseDuration_of_text[OF d] ms show "parseDuration e = Some ms" by simp
qed

lemma parseDuration_None_iff: "parseDuration e = None \<longleftrightarrow> \<not> (\<exists>ms. valid_duration e ms)"
  using parseDuration_iff[of e] by (cases "parseDuration e") auto


subsection \<open>Cron fields\<close>

lemma all_digits_iff: "all_digits s = Some n \<longleftrightarrow> digits s \<and> n = nat_of_digits s"
  by (auto simp: all_digits_def digits_def)

lemma range_prefix_iff:
  "range_prefix s = Some (a, b, r) \<longleftrightarrow>
     (\<exists>da db. digits da \<and> digits db \<and> s = da @ CHR ''-'' # db @ r
        \<and> (r = [] \<or> \<not> is_digit (hd r)) \<and> a = nat_of_digits da \<and> b = nat_of_digits db)"
proof
  assume p: "range_prefix s = Some (a, b, r)"
  let ?da = "takeWhile is_digit s" and ?r0 = "dropWhile is_digit s"
  let ?db = "takeWhile is_digit (tl ?r0)"
  from p have 1: "?da \<noteq> []" "?r0 \<noteq> []" "hd ?r0 = CHR ''-''" "?db \<noteq> []"
    and a: "a = nat_of_digits ?da" and b: "b = nat_of_digits ?db"
    and r: "r = dropWhile is_digit (tl ?r0)"
    by (auto simp: range_prefix_def Let_def split: if_splits)
  from 1 have r0: "?r0 = CHR ''-'' # tl ?r0" by (cases ?r0) auto
  have "s = ?da @ ?r0" by simp
  also have "\<dots> = ?da @ CHR ''-'' # tl ?r0" using r0 by simp
  also have "tl ?r0 = ?db @ r" using r by simp
  finally have s: "s = ?da @ CHR ''-'' # ?db @ r" .
  have da: "digits ?da" using 1 digits_parts(2)[of s] by (simp add: digits_def)
  have db: "digits ?db" using 1 digits_parts(2)[of "tl ?r0"] by (simp add: digits_def)
  have rr: "r = [] \<or> \<not> is_digit (hd r)" using digits_parts(3)[of "tl ?r0"] r by simp
  from s da db rr a b show "\<exists>da db. digits da \<and> digits db \<and> s = da @ CHR ''-'' # db @ r
        \<and> (r = [] \<or> \<not> is_digit (hd r)) \<and> a = nat_of_digits da \<and> b = nat_of_digits db"
    by blast
next
  assume "\<exists>da db. digits da \<and> digits db \<and> s = da @ CHR ''-'' # db @ r
        \<and> (r = [] \<or> \<not> is_digit (hd r)) \<and> a = nat_of_digits da \<and> b = nat_of_digits db"
  then obtain da db where da: "digits da" and db: "digits db" and s: "s = da @ CHR ''-'' # db @ r"
    and rr: "r = [] \<or> \<not> is_digit (hd r)" and a: "a = nat_of_digits da" and b: "b = nat_of_digits db"
    by blast
  have 1: "takeWhile is_digit s = da" "dropWhile is_digit s = CHR ''-'' # db @ r"
    using split_digits[of da "CHR ''-'' # db @ r"] da s by (simp_all add: digits_def not_digit_chars)
  have 2: "takeWhile is_digit (db @ r) = db" "dropWhile is_digit (db @ r) = r"
    using split_digits[of db r] db rr by (simp_all add: digits_def)
  from da db a b show "range_prefix s = Some (a, b, r)"
    by (simp add: range_prefix_def Let_def 1 2 digits_def)
qed

lemma range_text_iff: "range_text p a b \<longleftrightarrow> range_prefix p = Some (a, b, [])"
  by (auto simp: range_prefix_iff range_text_def)

lemma digits_hd: "digits ds \<Longrightarrow> \<exists>x xs. ds = x # xs \<and> is_digit x"
  by (cases ds) (auto simp: digits_def)

lemma step_match_iff: "step_match p = Some (a, b, n) \<longleftrightarrow> step_text p a b n"
proof
  assume m: "step_match p = Some (a, b, n)"
  then obtain c d rest where p: "p = c # d # rest"
    by (cases p; simp add: step_match_def) (rename_tac x xs, case_tac xs; simp)
  show "step_text p a b n"
  proof (cases "c = CHR ''*'' \<and> d = CHR ''/''")
    case True
    with m p have "all_digits rest = Some n" "a = 0" "b = 59"
      by (auto simp: step_match_def split: option.splits)
    then have "digits rest" "n = nat_of_digits rest" by (simp_all add: all_digits_iff)
    with True p \<open>a = 0\<close> \<open>b = 59\<close> have "digits rest \<and> p = ''*'' @ ''/'' @ rest \<and> n = nat_of_digits rest
        \<and> ((''*'' = ''*'' \<and> a = 0 \<and> b = 59) \<or> range_text ''*'' a b)" by simp
    then show ?thesis unfolding step_text_def by blast
  next
    case False
    with m p obtain ds where rp: "range_prefix p = Some (a, b, CHR ''/'' # ds)"
      and ad: "all_digits ds = Some n"
      by (auto simp: step_match_def split: option.splits list.splits if_splits)
    from rp obtain da db where da: "digits da" and db: "digits db"
      and s: "p = da @ CHR ''-'' # db @ CHR ''/'' # ds"
      and a: "a = nat_of_digits da" and b: "b = nat_of_digits db"
      unfolding range_prefix_iff by blast
    from da db a b have "range_text (da @ ''-'' @ db) a b" unfolding range_text_def by blast
    moreover from s have "p = (da @ ''-'' @ db) @ ''/'' @ ds" by simp
    moreover from ad have "digits ds" "n = nat_of_digits ds" by (simp_all add: all_digits_iff)
    ultimately show ?thesis unfolding step_text_def by blast
  qed
next
  assume "step_text p a b n"
  then obtain pre ds where ds: "digits ds" and p: "p = pre @ ''/'' @ ds" and n: "n = nat_of_digits ds"
    and c: "(pre = ''*'' \<and> a = 0 \<and> b = 59) \<or> range_text pre a b"
    unfolding step_text_def by blast
  from ds n have ad: "all_digits ds = Some n" by (simp add: all_digits_iff)
  from c show "step_match p = Some (a, b, n)"
  proof
    assume "pre = ''*'' \<and> a = 0 \<and> b = 59"
    with p ad show ?thesis by (simp add: step_match_def)
  next
    assume "range_text pre a b"
    then obtain da db where da: "digits da" and db: "digits db" and pre: "pre = da @ ''-'' @ db"
      and a: "a = nat_of_digits da" and b: "b = nat_of_digits db"
      unfolding range_text_def by blast
    from p pre have s: "p = da @ CHR ''-'' # db @ CHR ''/'' # ds" by simp
    have rp: "range_prefix p = Some (a, b, CHR ''/'' # ds)"
      unfolding range_prefix_iff using da db s a b by (auto simp: not_digit_chars)
    from digits_hd[OF da] obtain x xs where x: "da = x # xs" "is_digit x" by blast
    obtain y rest where yr: "xs @ CHR ''-'' # db @ CHR ''/'' # ds = y # rest"
      by (cases xs) auto
    from s x yr have pc: "p = x # y # rest" by simp
    from x(2) have nx: "x \<noteq> CHR ''*''" using not_digit_chars by auto
    have "step_match (x # y # rest) = Some (a, b, n)"
      using nx rp[unfolded pc] ad by (simp add: step_match_def)
    with pc show ?thesis by simp
  qed
qed

lemma stepped_empty: "b < a \<Longrightarrow> stepped a b n = []"
  by (simp add: stepped_def)

lemma stepped_rec:
  assumes "0 < n" and "a \<le> b"
  shows "stepped a b n = int a # stepped (a + n) b n"
proof (cases "b < a + n")
  case True
  with assms have "(b - a) div n = 0" by simp
  with assms True show ?thesis by (simp add: stepped_def)
next
  case False
  with assms have d: "(b - a) div n = Suc ((b - (a + n)) div n)"
    using le_div_geq[of n "b - a"] by simp
  have "stepped a b n = map (\<lambda>i. int (a + i * n)) [0 ..< Suc (Suc ((b - (a + n)) div n))]"
    using assms d by (simp add: stepped_def)
  also have "\<dots> = int a # map (\<lambda>i. int (a + Suc i * n)) [0 ..< Suc ((b - (a + n)) div n)]"
    by (subst map_upt_Suc) simp
  also have "map (\<lambda>i. int (a + Suc i * n)) [0 ..< Suc ((b - (a + n)) div n)] = stepped (a + n) b n"
    using False by (simp add: stepped_def add.assoc)
  finally show ?thesis .
qed

lemma step_range_stepped: "0 < n \<Longrightarrow> map int (step_range a b n) = stepped a b n"
proof (induction a b n rule: step_range.induct)
  case (1 i e st)
  show ?case
  proof (cases "e < i")
    case True
    then show ?thesis by (subst step_range.simps) (simp add: stepped_empty)
  next
    case False
    with 1 have "map int (step_range (i + st) e st) = stepped (i + st) e st" by simp
    with False 1(2) show ?thesis
      by (subst step_range.simps) (simp add: stepped_rec)
  qed
qed

lemma step_match_star: "step_match ''*'' = None"
  by (simp add: step_match_def)

lemma range_prefix_star: "range_prefix ''*'' = None"
  by (simp add: range_prefix_def not_digit_chars)

lemma range_not_step:
  assumes "range_text p a b"
  shows "step_match p = None"
proof (cases "step_match p")
  case None
  then show ?thesis .
next
  case (Some t)
  obtain a' b' n where "t = (a', b', n)" by (cases t)
  with Some have "step_text p a' b' n" by (simp add: step_match_iff)
  then obtain pre ds where ds: "digits ds" and p: "p = pre @ ''/'' @ ds"
    and c: "(pre = ''*'' \<and> a' = 0 \<and> b' = 59) \<or> range_text pre a' b'"
    unfolding step_text_def by blast
  from assms have r0: "range_prefix p = Some (a, b, [])" by (simp add: range_text_iff)
  from c have False
  proof
    assume "pre = ''*'' \<and> a' = 0 \<and> b' = 59"
    with p r0 show False by (simp add: range_prefix_def not_digit_chars)
  next
    assume "range_text pre a' b'"
    then obtain da db where "digits da" "digits db" "pre = da @ ''-'' @ db"
      "a' = nat_of_digits da" "b' = nat_of_digits db"
      unfolding range_text_def by blast
    with p have "range_prefix p = Some (a', b', CHR ''/'' # ds)"
      unfolding range_prefix_iff by (auto simp: not_digit_chars)
    with r0 show False by simp
  qed
  then show ?thesis ..
qed

lemma parse_part_iff: "parse_part h p = Values vs \<longleftrightarrow> part_values h p vs"
proof (cases "step_match p")
  case (Some t)
  obtain a b n where t: "t = (a, b, n)" by (cases t)
  with Some have sm: "step_match p = Some (a, b, n)" by simp
  then have st: "step_text p a b n" by (simp add: step_match_iff)
  have uniq: "\<And>a' b' n'. step_text p a' b' n' \<Longrightarrow> a' = a \<and> b' = b \<and> n' = n"
    using sm by (simp add: step_match_iff[symmetric])
  have nr: "\<And>a' b'. \<not> range_text p a' b'" using range_not_step sm by fastforce
  have ns: "p \<noteq> ''*''" using sm step_match_star by auto
  have pv: "part_values h p vs \<longleftrightarrow> 0 < n \<and> vs = stepped a b n"
    unfolding part_values_def using st uniq nr ns by blast
  show ?thesis
    by (simp add: parse_part_def sm pv step_range_stepped) auto
next
  case None
  then have nst: "\<And>a b n. \<not> step_text p a b n" by (simp add: step_match_iff[symmetric])
  show ?thesis
  proof (cases "\<exists>a b. range_prefix p = Some (a, b, [])")
    case True
    then obtain a b where rp: "range_prefix p = Some (a, b, [])" by blast
    then have rt: "range_text p a b" by (simp add: range_text_iff)
    have uniq: "\<And>a' b'. range_text p a' b' \<Longrightarrow> a' = a \<and> b' = b"
      using rp by (simp add: range_text_iff)
    have ns: "p \<noteq> ''*''" using rp range_prefix_star by auto
    have pv: "part_values h p vs \<longleftrightarrow> vs = stepped a b 1"
      unfolding part_values_def using rt uniq nst ns by blast
    show ?thesis
      by (simp add: parse_part_def None rp pv step_range_stepped) auto
  next
    case False
    then have nrt: "\<And>a b. \<not> range_text p a b" by (simp add: range_text_iff)
    have pp: "parse_part h p = (if p = ''*'' then Values (map int (step_range 0 59 1))
                 else (case js_Number h p of None \<Rightarrow> Bad | Some n \<Rightarrow> Values [n]))"
      using False None
      by (cases "range_prefix p")
         (auto simp: parse_part_def split: option.splits list.splits prod.splits)
    have pv: "part_values h p vs \<longleftrightarrow>
                (if p = ''*'' then vs = stepped 0 59 1 else (\<exists>v. js_Number h p = Some v \<and> vs = [v]))"
      unfolding part_values_def using nst nrt by auto
    show ?thesis
      by (cases "js_Number h p") (auto simp add: pp pv step_range_stepped)
  qed
qed

lemma part_values_fun: "part_values h p vs \<Longrightarrow> part_values h p vs' \<Longrightarrow> vs = vs'"
  by (simp add: parse_part_iff[symmetric])

lemma parse_parts_iff:
  "parse_parts h acc ps = Some vs \<longleftrightarrow>
     (\<exists>vss. list_all2 (part_values h) ps vss \<and> vs = acc @ concat vss \<and> vs \<noteq> [])"
proof (induction ps arbitrary: acc)
  case Nil
  then show ?case by auto
next
  case (Cons p ps)
  show ?case
  proof (cases "parse_part h p")
    case Bad
    then have "\<And>v. \<not> part_values h p v" by (simp add: parse_part_iff[symmetric])
    with Bad show ?thesis by (auto simp: list_all2_Cons1)
  next
    case (Values v)
    then have pv: "\<And>v'. part_values h p v' \<longleftrightarrow> v' = v" by (auto simp: parse_part_iff[symmetric])
    show ?thesis
      by (simp add: Values Cons.IH list_all2_Cons1 pv) auto
  qed
qed

lemma parseFieldValues_iff: "parseFieldValues h f = Some vs \<longleftrightarrow> field_values h f vs"
  by (simp add: parseFieldValues_def parse_parts_iff field_values_def)

lemma fields_parse:
  "list_all2 (field_values h) ps fs \<longleftrightarrow> map (parseFieldValues h) ps = map Some fs"
proof (induction ps arbitrary: fs)
  case Nil
  then show ?case by auto
next
  case (Cons p ps)
  then show ?case by (cases fs) (auto simp: parseFieldValues_iff)
qed

lemma list_ex_None_map: "list_ex (\<lambda>f. f = None) (map g xs) \<longleftrightarrow> (\<exists>x \<in> set xs. g x = None)"
  by (induction xs) auto

lemma all_Some_map: "(\<forall>x \<in> set xs. g x \<noteq> None) \<Longrightarrow> map g xs = map Some (map (the \<circ> g) xs)"
  by (induction xs) auto

lemma malformed_cron_iff:
  "malformed_cron h expr \<longleftrightarrow>
     length (split_ws (trim expr)) \<noteq> 5
     \<or> list_ex (\<lambda>f. f = None) (map (parseFieldValues h) (split_ws (trim expr)))"
proof -
  let ?ps = "split_ws (trim expr)"
  have "(\<exists>fs. map (parseFieldValues h) ?ps = map Some fs) \<longleftrightarrow> (\<forall>f \<in> set ?ps. parseFieldValues h f \<noteq> None)"
  proof
    assume "\<exists>fs. map (parseFieldValues h) ?ps = map Some fs"
    then obtain fs where e: "map (parseFieldValues h) ?ps = map Some fs" by blast
    show "\<forall>f \<in> set ?ps. parseFieldValues h f \<noteq> None"
    proof
      fix f assume "f \<in> set ?ps"
      then have "parseFieldValues h f \<in> set (map (parseFieldValues h) ?ps)" by simp
      with e show "parseFieldValues h f \<noteq> None" by auto
    qed
  next
    assume "\<forall>f \<in> set ?ps. parseFieldValues h f \<noteq> None"
    from all_Some_map[OF this] show "\<exists>fs. map (parseFieldValues h) ?ps = map Some fs" by blast
  qed
  then show ?thesis
    unfolding malformed_cron_def cron_fields_def fields_parse list_ex_None_map by auto
qed

lemma cron_fields_the:
  "cron_fields h expr fs \<Longrightarrow> fs = map (the \<circ> parseFieldValues h) (split_ws (trim expr))"
proof -
  assume "cron_fields h expr fs"
  then have e: "map (parseFieldValues h) (split_ws (trim expr)) = map Some fs"
    by (simp add: cron_fields_def fields_parse)
  have "map the (map (parseFieldValues h) (split_ws (trim expr))) = fs"
    unfolding e by (simp add: comp_def)
  then show ?thesis by simp
qed

subsection \<open>The scan\<close>

lemma cron_scan_None_iff:
  "cron_scan h fs lim cursor = None \<longleftrightarrow>
     (\<forall>k::nat. cursor + int k * minute_ms < lim \<longrightarrow> \<not> cron_matches h fs (cursor + int k * minute_ms))"
proof (induction h fs lim cursor rule: cron_scan.induct)
  case (1 h fs lim cursor)
  show ?case
  proof (cases "cursor < lim")
    case False
    have "\<And>k::nat. \<not> cursor + int k * minute_ms < lim"
      using False by (simp add: minute_ms_def)
    with False show ?thesis by (subst cron_scan.simps) simp
  next
    case True
    show ?thesis
    proof (cases "cron_matches h fs cursor")
      case m: True
      have "cursor + int 0 * minute_ms < lim \<and> cron_matches h fs (cursor + int 0 * minute_ms)"
        using True m by simp
      then have "\<not> (\<forall>k::nat. cursor + int k * minute_ms < lim \<longrightarrow>
                     \<not> cron_matches h fs (cursor + int k * minute_ms))" by blast
      with True m show ?thesis by (subst cron_scan.simps) simp
    next
      case m: False
      have ih: "cron_scan h fs lim (cursor + minute_ms) = None \<longleftrightarrow>
          (\<forall>k::nat. cursor + minute_ms + int k * minute_ms < lim \<longrightarrow>
                     \<not> cron_matches h fs (cursor + minute_ms + int k * minute_ms))"
        using 1[OF True m] .
      have shift: "(\<forall>k::nat. cursor + minute_ms + int k * minute_ms < lim \<longrightarrow>
                     \<not> cron_matches h fs (cursor + minute_ms + int k * minute_ms))
            \<longleftrightarrow> (\<forall>k::nat. cursor + int k * minute_ms < lim \<longrightarrow>
                     \<not> cron_matches h fs (cursor + int k * minute_ms))" (is "?A \<longleftrightarrow> ?B")
      proof
        assume a: ?A
        show ?B
        proof (intro allI impI)
          fix k :: nat assume lt: "cursor + int k * minute_ms < lim"
          show "\<not> cron_matches h fs (cursor + int k * minute_ms)"
          proof (cases k)
            case 0
            with m show ?thesis by simp
          next
            case (Suc n)
            then have e: "cursor + int k * minute_ms = cursor + minute_ms + int n * minute_ms"
              by (simp add: algebra_simps)
            with a lt show ?thesis by metis
          qed
        qed
      next
        assume b: ?B
        show ?A
        proof (intro allI impI)
          fix k :: nat assume lt: "cursor + minute_ms + int k * minute_ms < lim"
          have e: "cursor + minute_ms + int k * minute_ms = cursor + int (Suc k) * minute_ms"
            by (simp add: algebra_simps)
          with b lt show "\<not> cron_matches h fs (cursor + minute_ms + int k * minute_ms)" by metis
        qed
      qed
      from True m ih shift show ?thesis by (subst cron_scan.simps) simp
    qed
  qed
qed

subsection \<open>Resolution\<close>

lemma nextCronFire_None_iff:
  "nextCronFire h expr afterMs = None \<longleftrightarrow> malformed_cron h expr \<or> unsatisfiable_cron h expr afterMs"
proof (cases "malformed_cron h expr")
  case True
  then have "nextCronFire h expr afterMs = None"
    unfolding malformed_cron_iff by (auto simp: nextCronFire_def Let_def)
  with True show ?thesis by simp
next
  case False
  then obtain fs where cf: "cron_fields h expr fs" unfolding malformed_cron_def by blast
  from cron_fields_the[OF cf]
  have fs: "map (the \<circ> parseFieldValues h) (split_ws (trim expr)) = fs" by simp
  have one: "\<And>fs'. cron_fields h expr fs' \<longleftrightarrow> fs' = fs"
    using cf cron_fields_the[of h expr] by auto
  from False have wf: "length (split_ws (trim expr)) = 5"
    "\<not> list_ex (\<lambda>f. f = None) (map (parseFieldValues h) (split_ws (trim expr)))"
    unfolding malformed_cron_iff by simp_all
  have "nextCronFire h expr afterMs
          = cron_scan h fs (afterMs + 366 * 24 * 60 * 60 * 1000)
              ((afterMs - afterMs mod minute_ms) + minute_ms)"
    using wf fs by (simp add: nextCronFire_def Let_def comp_def)
  with False show ?thesis
    by (simp add: cron_scan_None_iff unsatisfiable_cron_def one)
qed

lemma unparseable_Every: "unparseable h (Every e) t \<longleftrightarrow> parseDuration e = None"
  by (simp only: unparseable_def CronSchedule.case parseDuration_None_iff)

lemma computeNextRun_None_iff:
  "computeNextRun h sched afterMs = None \<longleftrightarrow> unparseable h sched afterMs \<or> past_one_shot h sched afterMs"
proof (cases sched)
  case (At a)
  then show ?thesis
    by (auto simp: computeNextRun_def unparseable_def past_one_shot_def split: option.splits)
next
  case (Every e)
  then show ?thesis
    by (cases "parseDuration e")
       (simp_all add: computeNextRun_def unparseable_Every past_one_shot_def)
next
  case (Cron c)
  then show ?thesis
    by (simp add: computeNextRun_def unparseable_def past_one_shot_def nextCronFire_None_iff)
qed

subsection \<open>The operations that set the next run\<close>

lemma add_last_job:
  "last (jobs (snd (add h i ok now now' params eng)))
     = \<lparr>job_id = i, name = c_name params,
        enabled = (case c_enabled params of None \<Rightarrow> True | Some b \<Rightarrow> b),
        schedule = c_schedule params, job_payload = c_payload params,
        state = \<lparr>nextRunAtMs = computeNextRun h (c_schedule params) now,
                 lastRunAtMs = None, lastStatus = None, consecutiveErrors = 0\<rparr>,
        createdAt = now\<rparr>"
  by (cases "stopped eng")
     (auto simp: add_def save_def armTimer_def clearTimer_def Let_def split: option.splits)

lemma armTimer_jobs: "jobs (armTimer now eng) = jobs eng"
  by (simp add: armTimer_def Let_def split: option.splits)

lemma update_job_at:
  assumes "findIndex i (jobs eng) = Some k"
  shows "jobs (snd (update h ok now now' i patch eng)) ! k = apply_patch h now patch (jobs eng ! k)"
proof -
  from assms have "k < length (jobs eng)" by (simp add: findIndex_Some_less)
  with assms show ?thesis
    by (simp add: update_def save_def Let_def armTimer_jobs clearTimer_def)
qed

lemma apply_patch_schedule:
  "p_schedule patch = Some s \<Longrightarrow>
     nextRunAtMs (state (apply_patch h now patch j)) = computeNextRun h s now"
  by (simp add: apply_patch_def Let_def split: option.splits)

lemma fireJob_fields:
  "lastRunAtMs (state (fst (fireJob h wok ts_now now j lg))) = Some now"
  "schedule (fst (fireJob h wok ts_now now j lg)) = schedule j"
  by (auto simp: fireJob_def append_def Let_def split: CronSchedule.splits prod.splits sum.splits)

lemma apply_patch_no_schedule:
  "p_schedule patch = None \<Longrightarrow>
     nextRunAtMs (state (apply_patch h now patch j)) = nextRunAtMs (state j)"
  by (simp add: apply_patch_def Let_def split: option.splits)

lemma armTimer_store: "store (armTimer now eng) = store eng"
  by (simp add: armTimer_def Let_def split: option.splits)

lemma save_jobs: "jobs (snd (save ok eng)) = jobs eng"
  by (simp add: save_def)

lemma runNow_job_at:
  assumes "findIndex i (jobs eng) = Some k"
  shows "jobs (snd (runNow h wok ok ts_now now i eng)) ! k
           = fst (fireJob h wok ts_now now (jobs eng ! k) (eventLog eng))"
proof -
  from assms have "k < length (jobs eng)" by (simp add: findIndex_Some_less)
  with assms show ?thesis
    by (simp add: runNow_def save_jobs split: prod.splits)
qed

lemma start_jobs:
  "jobs (snd (start h True ok now now' eng))
     = map (start_job h now) (case store eng of None \<Rightarrow> [] | Some js \<Rightarrow> js)"
  by (cases ok)
     (auto simp: start_def load_def save_def armTimer_jobs Let_def split: option.splits)

text \<open>A tick fires the due jobs and leaves the others as they are.\<close>

lemma fire_due_jobs:
  "list_all2 (\<lambda>j j'. if is_due now j
                      then (\<exists>lg0. j' = fst (fireJob h (w (job_id j)) ts_now now j lg0))
                      else j' = j)
     js (fst (fire_due h w ts_now now js lg))"
proof (induction js arbitrary: lg)
  case Nil
  then show ?case by simp
next
  case (Cons j js)
  show ?case
  proof (cases "is_due now j")
    case True
    obtain j' lg1 where f: "fireJob h (w (job_id j)) ts_now now j lg = (j', lg1)"
      by (cases "fireJob h (w (job_id j)) ts_now now j lg")
    obtain js' lg2 where r: "fire_due h w ts_now now js lg1 = (js', lg2)"
      by (cases "fire_due h w ts_now now js lg1")
    from f have "j' = fst (fireJob h (w (job_id j)) ts_now now j lg)" by simp
    then have "\<exists>lg0. j' = fst (fireJob h (w (job_id j)) ts_now now j lg0)" by blast
    with True f r Cons.IH[of lg1] show ?thesis by simp
  next
    case False
    obtain js' lg2 where r: "fire_due h w ts_now now js lg = (js', lg2)"
      by (cases "fire_due h w ts_now now js lg")
    with False Cons.IH[of lg] show ?thesis by simp
  qed
qed

text \<open>
  Claim C5, amended. \<open>nextRunAtMs\<close> is set by \<open>add\<close>, by an \<open>update\<close> that patches the
  schedule, by every fire (from the timer or from \<open>runNow\<close>) and by \<open>start\<close> for an enabled
  job whose next run is null or past; an \<open>update\<close> without a schedule and \<open>start\<close> on any
  other job leave it as it is. Where \<open>add\<close>, \<open>update\<close> or \<open>start\<close> sets it, it is null
  exactly when the schedule is unparseable or is a one-shot whose valid timestamp is not
  after the current time. Where a fire sets it, it is null exactly when the job is a
  one-shot, now spent, or the fire left no consecutive errors and the schedule is
  unparseable.
\<close>

theorem next_run_null_iff:
  "(nextRunAtMs (state (last (jobs (snd (add h i ok now now' params eng))))) = None
       \<longleftrightarrow> unparseable h (c_schedule params) now \<or> past_one_shot h (c_schedule params) now)
   \<and> (findIndex i (jobs eng) = Some k \<longrightarrow>
        (case p_schedule patch of
           Some s \<Rightarrow>
             (nextRunAtMs (state (jobs (snd (update h ok now now' i patch eng)) ! k)) = None
                \<longleftrightarrow> unparseable h s now \<or> past_one_shot h s now)
         | None \<Rightarrow>
             nextRunAtMs (state (jobs (snd (update h ok now now' i patch eng)) ! k))
               = nextRunAtMs (state (jobs eng ! k))))
   \<and> (nextRunAtMs (state (fst (fireJob h wok ts_now now j lg))) = None
        \<longleftrightarrow> spent_one_shot (fst (fireJob h wok ts_now now j lg))
           \<or> (consecutiveErrors (state (fst (fireJob h wok ts_now now j lg))) \<le> 0
               \<and> unparseable h (schedule j) now))
   \<and> (if enabled j \<and> (case nextRunAtMs (state j) of None \<Rightarrow> True | Some n \<Rightarrow> n < now)
      then (nextRunAtMs (state (start_job h now j)) = None
              \<longleftrightarrow> unparseable h (schedule j) now \<or> past_one_shot h (schedule j) now)
      else start_job h now j = j)"
proof (intro conjI impI)
  show "nextRunAtMs (state (last (jobs (snd (add h i ok now now' params eng))))) = None
       \<longleftrightarrow> unparseable h (c_schedule params) now \<or> past_one_shot h (c_schedule params) now"
    by (simp add: add_last_job computeNextRun_None_iff)
next
  assume "findIndex i (jobs eng) = Some k"
  then show "case p_schedule patch of
           Some s \<Rightarrow>
             (nextRunAtMs (state (jobs (snd (update h ok now now' i patch eng)) ! k)) = None
                \<longleftrightarrow> unparseable h s now \<or> past_one_shot h s now)
         | None \<Rightarrow>
             nextRunAtMs (state (jobs (snd (update h ok now now' i patch eng)) ! k))
               = nextRunAtMs (state (jobs eng ! k))"
    by (cases "p_schedule patch")
       (simp_all add: update_job_at apply_patch_schedule apply_patch_no_schedule
          computeNextRun_None_iff)
next
  let ?j' = "fst (fireJob h wok ts_now now j lg)"
  obtain j' lg' where f: "fireJob h wok ts_now now j lg = (j', lg')" by (cases "fireJob h wok ts_now now j lg")
  note nr = fireJob_next_run(1)[OF f]
  show "nextRunAtMs (state ?j') = None
        \<longleftrightarrow> spent_one_shot ?j' \<or> (consecutiveErrors (state ?j') \<le> 0 \<and> unparseable h (schedule j) now)"
  proof (cases "schedule j")
    case (At a)
    with nr f fireJob_fields[of h wok ts_now now j lg] show ?thesis
      by (simp add: spent_one_shot_def)
  next
    case (Every e)
    with nr f fireJob_fields[of h wok ts_now now j lg] show ?thesis
      by (auto simp: spent_one_shot_def computeNextRun_None_iff past_one_shot_def)
  next
    case (Cron c)
    with nr f fireJob_fields[of h wok ts_now now j lg] show ?thesis
      by (auto simp: spent_one_shot_def computeNextRun_None_iff past_one_shot_def)
  qed
next
  show "if enabled j \<and> (case nextRunAtMs (state j) of None \<Rightarrow> True | Some n \<Rightarrow> n < now)
      then (nextRunAtMs (state (start_job h now j)) = None
              \<longleftrightarrow> unparseable h (schedule j) now \<or> past_one_shot h (schedule j) now)
      else start_job h now j = j"
    by (cases "schedule j")
       (auto simp: start_job_def Let_def computeNextRun_None_iff split: option.splits)
qed

lemma parseDuration_garbage: "parseDuration ''abc'' = None"
  by (simp add: parseDuration_def take_unit_def trim_def is_space_def is_digit_def digit_val_def Let_def)

lemma parseDuration_sample: "parseDuration ''30m'' = Some 1800000"
  by (simp add: parseDuration_def take_unit_def trim_def is_space_def is_digit_def digit_val_def
      nat_of_digits_def Let_def)

lemma unparseable_garbage: "unparseable h (Every ''abc'') t"
  by (simp add: unparseable_Every parseDuration_garbage)

lemma parseable_sample: "\<not> unparseable h (Every ''30m'') t"
  by (simp add: unparseable_Every parseDuration_sample)

theorem next_run_null_iff_witness:
  "findIndex ''a1b2c3d4'' (jobs sample_engine) = Some 0
   \<and> unparseable sample_host (Every ''abc'') 2000000
   \<and> nextRunAtMs (state (jobs (snd (update sample_host True 2000000 2000001 ''a1b2c3d4''
         \<lparr>p_name = None, p_schedule = Some (Every ''abc''), p_payload = None, p_enabled = None\<rparr>
         sample_engine)) ! 0)) = None
   \<and> nextRunAtMs (state (jobs (snd (update sample_host True 2000000 2000001 ''a1b2c3d4''
         \<lparr>p_name = Some ''eth'', p_schedule = None, p_payload = None, p_enabled = None\<rparr>
         sample_engine)) ! 0)) = Some 1800000
   \<and> enabled sample_job
   \<and> nextRunAtMs (state sample_job) = Some 1800000
   \<and> \<not> unparseable sample_host (schedule sample_job) 2000000
   \<and> nextRunAtMs (state (start_job sample_host 2000000 sample_job)) \<noteq> None
   \<and> start_job sample_host 1000 sample_job = sample_job"
proof -
  let ?patch = "\<lparr>p_name = None, p_schedule = Some (Every ''abc''), p_payload = None, p_enabled = None\<rparr>"
  let ?rename = "\<lparr>p_name = Some ''eth'', p_schedule = None, p_payload = None, p_enabled = None\<rparr>"
  have a: "findIndex ''a1b2c3d4'' (jobs sample_engine) = Some 0"
    by (simp add: sample_engine_def sample_job_def)
  have u: "unparseable sample_host (Every ''abc'') 2000000" by (rule unparseable_garbage)
  have e: "enabled sample_job" "nextRunAtMs (state sample_job) = Some 1800000"
    by (simp_all add: sample_job_def)
  have nu: "\<not> unparseable sample_host (schedule sample_job) 2000000"
    "\<not> past_one_shot sample_host (schedule sample_job) 2000000"
    by (simp_all add: past_one_shot_def sample_job_def parseable_sample)
  note T = next_run_null_iff[where h = sample_host and eng = sample_engine and i = "''a1b2c3d4''"
      and k = 0 and now' = 2000001 and ok = True and j = sample_job]
  from T[where patch = ?patch and now = 2000000] a u
  have r1: "nextRunAtMs (state (jobs (snd (update sample_host True 2000000 2000001
      ''a1b2c3d4'' ?patch sample_engine)) ! 0)) = None"
    by simp
  from T[where patch = ?rename and now = 2000000] a
  have "nextRunAtMs (state (jobs (snd (update sample_host True 2000000 2000001
      ''a1b2c3d4'' ?rename sample_engine)) ! 0)) = nextRunAtMs (state (jobs sample_engine ! 0))"
    by simp
  then have r2: "nextRunAtMs (state (jobs (snd (update sample_host True 2000000 2000001
      ''a1b2c3d4'' ?rename sample_engine)) ! 0)) = Some 1800000"
    by (simp add: sample_engine_def sample_job_def)
  from T[where now = 2000000] e nu
  have r3: "nextRunAtMs (state (start_job sample_host 2000000 sample_job)) \<noteq> None"
    by simp
  from T[where now = 1000] e
  have r4: "start_job sample_host 1000 sample_job = sample_job"
    by simp
  from a u r1 r2 e nu(1) r3 r4 show ?thesis by (intro conjI)
qed

text \<open>
  As stated, C5 makes null the mark of a spent one-shot or an unparseable schedule, for
  every job the scheduler holds. Four jobs it holds: a one-shot added with a valid
  timestamp that is already past has a null next run though it never fired; a repeating
  job with the duration \<^verbatim>\<open>abc\<close> has a next run, the backoff time, after a fire whose
  append failed; a one-shot that has fired has a next run again after \<open>update\<close> gave it a
  future timestamp, and also after it was enabled again and \<open>start\<close> recomputed it.
\<close>

theorem null_iff_spent_or_unparseable_fails:
  "nextRunAtMs (state (last (jobs (snd (add sample_host ''c0ffee00'' True 1748772010000 1748772010001
       \<lparr>c_name = ''expired'', c_schedule = At ''2025-06-01T10:00:00Z'', c_payload = ''x'', c_enabled = None\<rparr>
       sample_engine))))) = None
   \<and> lastRunAtMs (state (last (jobs (snd (add sample_host ''c0ffee00'' True 1748772010000 1748772010001
       \<lparr>c_name = ''expired'', c_schedule = At ''2025-06-01T10:00:00Z'', c_payload = ''x'', c_enabled = None\<rparr>
       sample_engine))))) = None
   \<and> \<not> spent_one_shot (last (jobs (snd (add sample_host ''c0ffee00'' True 1748772010000 1748772010001
       \<lparr>c_name = ''expired'', c_schedule = At ''2025-06-01T10:00:00Z'', c_payload = ''x'', c_enabled = None\<rparr>
       sample_engine))))
   \<and> \<not> unparseable sample_host
         (schedule (last (jobs (snd (add sample_host ''c0ffee00'' True 1748772010000 1748772010001
       \<lparr>c_name = ''expired'', c_schedule = At ''2025-06-01T10:00:00Z'', c_payload = ''x'', c_enabled = None\<rparr>
       sample_engine))))) 1748772010000
   \<and> schedule (jobs (snd (runNow sample_host False True 1000 1000 ''0badd00d'' engine_bad_every)) ! 1)
       = Every ''abc''
   \<and> unparseable sample_host
         (schedule (jobs (snd (runNow sample_host False True 1000 1000 ''0badd00d'' engine_bad_every)) ! 1))
         1000
   \<and> nextRunAtMs (state (jobs (snd (runNow sample_host False True 1000 1000 ''0badd00d''
         engine_bad_every)) ! 1)) = Some 31000
   \<and> spent_one_shot (jobs (snd (update sample_host True 2000 2000 ''0ce0ce00''
         \<lparr>p_name = None, p_schedule = Some (At ''2025-06-01T10:00:00Z''), p_payload = None,
          p_enabled = Some True\<rparr> engine_once_fired)) ! 1)
   \<and> nextRunAtMs (state (jobs (snd (update sample_host True 2000 2000 ''0ce0ce00''
         \<lparr>p_name = None, p_schedule = Some (At ''2025-06-01T10:00:00Z''), p_payload = None,
          p_enabled = Some True\<rparr> engine_once_fired)) ! 1)) = Some 1748772000000
   \<and> spent_one_shot (jobs (snd (start sample_host True True 3000 3000 engine_once_reenabled)) ! 1)
   \<and> nextRunAtMs (state (jobs (snd (start sample_host True True 3000 3000 engine_once_reenabled)) ! 1))
       = Some 1748772000000"
proof -
  have f1: "nextRunAtMs (state (last (jobs (snd (add sample_host ''c0ffee00'' True 1748772010000 1748772010001
       \<lparr>c_name = ''expired'', c_schedule = At ''2025-06-01T10:00:00Z'', c_payload = ''x'', c_enabled = None\<rparr>
       sample_engine))))) = None
   \<and> lastRunAtMs (state (last (jobs (snd (add sample_host ''c0ffee00'' True 1748772010000 1748772010001
       \<lparr>c_name = ''expired'', c_schedule = At ''2025-06-01T10:00:00Z'', c_payload = ''x'', c_enabled = None\<rparr>
       sample_engine))))) = None
   \<and> \<not> spent_one_shot (last (jobs (snd (add sample_host ''c0ffee00'' True 1748772010000 1748772010001
       \<lparr>c_name = ''expired'', c_schedule = At ''2025-06-01T10:00:00Z'', c_payload = ''x'', c_enabled = None\<rparr>
       sample_engine))))
   \<and> \<not> unparseable sample_host
         (schedule (last (jobs (snd (add sample_host ''c0ffee00'' True 1748772010000 1748772010001
       \<lparr>c_name = ''expired'', c_schedule = At ''2025-06-01T10:00:00Z'', c_payload = ''x'', c_enabled = None\<rparr>
       sample_engine))))) 1748772010000"
    by (simp add: add_last_job computeNextRun_def spent_one_shot_def unparseable_def sample_host_def)
  have sj: "job_id sample_job = ''a1b2c3d4''" by (simp add: sample_job_def)
  have jb: "jobs engine_bad_every
      = [sample_job,
         \<lparr>job_id = ''0badd00d'', name = ''bad'', enabled = True, schedule = Every ''abc'',
          job_payload = ''x'',
          state = \<lparr>nextRunAtMs = None, lastRunAtMs = None, lastStatus = None, consecutiveErrors = 0\<rparr>,
          createdAt = 1000\<rparr>]"
    by (simp add: engine_bad_every_def add_def save_def armTimer_jobs clearTimer_def Let_def
        sample_engine_def computeNextRun_def parseDuration_garbage)
  have ib: "findIndex ''0badd00d'' (jobs engine_bad_every) = Some 1"
    by (simp add: jb sample_job_def)
  have f2: "jobs (snd (runNow sample_host False True 1000 1000 ''0badd00d'' engine_bad_every)) ! 1
      = \<lparr>job_id = ''0badd00d'', name = ''bad'', enabled = True, schedule = Every ''abc'',
          job_payload = ''x'',
          state = \<lparr>nextRunAtMs = Some 31000, lastRunAtMs = Some 1000, lastStatus = Some Error,
                   consecutiveErrors = 1\<rparr>,
          createdAt = 1000\<rparr>"
    by (subst runNow_job_at[OF ib])
       (simp add: jb fireJob_def append_def Let_def errorBackoffMs_cases)
  have jo: "jobs engine_once
      = [sample_job,
         \<lparr>job_id = ''0ce0ce00'', name = ''once'', enabled = True,
          schedule = At ''2025-06-01T10:00:00Z'', job_payload = ''x'',
          state = \<lparr>nextRunAtMs = Some 1748772000000, lastRunAtMs = None, lastStatus = None,
                   consecutiveErrors = 0\<rparr>,
          createdAt = 1000\<rparr>]"
    by (simp add: engine_once_def add_def save_def armTimer_jobs clearTimer_def Let_def
        sample_engine_def computeNextRun_def sample_host_def)
  have io: "findIndex ''0ce0ce00'' (jobs engine_once) = Some 1"
    by (simp add: jo sample_job_def)
  have jf: "jobs engine_once_fired
      = [sample_job,
         \<lparr>job_id = ''0ce0ce00'', name = ''once'', enabled = False,
          schedule = At ''2025-06-01T10:00:00Z'', job_payload = ''x'',
          state = \<lparr>nextRunAtMs = None, lastRunAtMs = Some 1500, lastStatus = Some Ok,
                   consecutiveErrors = 0\<rparr>,
          createdAt = 1000\<rparr>]"
    by (simp add: engine_once_fired_def runNow_def sj save_jobs jo fireJob_def append_def Let_def
        split: prod.splits)
  have "findIndex ''0ce0ce00'' (jobs engine_once_fired) = Some 1"
    by (simp add: jf sample_job_def)
  note uf = update_job_at[OF this]
  have f3: "jobs (snd (update sample_host True 2000 2000 ''0ce0ce00''
         \<lparr>p_name = None, p_schedule = Some (At ''2025-06-01T10:00:00Z''), p_payload = None,
          p_enabled = Some True\<rparr> engine_once_fired)) ! 1
      = \<lparr>job_id = ''0ce0ce00'', name = ''once'', enabled = True,
          schedule = At ''2025-06-01T10:00:00Z'', job_payload = ''x'',
          state = \<lparr>nextRunAtMs = Some 1748772000000, lastRunAtMs = Some 1500, lastStatus = Some Ok,
                   consecutiveErrors = 0\<rparr>,
          createdAt = 1000\<rparr>"
    by (subst uf) (simp add: jf apply_patch_def Let_def computeNextRun_def sample_host_def)
  have jr: "jobs engine_once_reenabled
      = [sample_job,
         \<lparr>job_id = ''0ce0ce00'', name = ''once'', enabled = True,
          schedule = At ''2025-06-01T10:00:00Z'', job_payload = ''x'',
          state = \<lparr>nextRunAtMs = None, lastRunAtMs = Some 1500, lastStatus = Some Ok,
                   consecutiveErrors = 0\<rparr>,
          createdAt = 1000\<rparr>]"
    and sr: "store engine_once_reenabled = Some (jobs engine_once_reenabled)"
    by (simp_all add: engine_once_reenabled_def update_def sj jf save_def armTimer_jobs
        armTimer_store clearTimer_def apply_patch_def Let_def)
  have f4: "jobs (snd (start sample_host True True 3000 3000 engine_once_reenabled)) ! 1
      = \<lparr>job_id = ''0ce0ce00'', name = ''once'', enabled = True,
          schedule = At ''2025-06-01T10:00:00Z'', job_payload = ''x'',
          state = \<lparr>nextRunAtMs = Some 1748772000000, lastRunAtMs = Some 1500, lastStatus = Some Ok,
                   consecutiveErrors = 0\<rparr>,
          createdAt = 1000\<rparr>"
    by (simp add: start_jobs sr jr start_job_def Let_def computeNextRun_def sample_host_def)
  show ?thesis
    unfolding f2 f3 f4
    using f1 by (simp add: spent_one_shot_def unparseable_garbage)
qed

end
